theory Spec2Isabelle
  imports Main "HOL-Library.AList"
begin

text \<open>
  The package \<open>cache\<close> of go-cachefn holds two caches that keep their entries fresh by
  calling a producer again: \<open>Cache\<close>, filled key by key on the first \<open>Get\<close> of each key,
  and \<open>CacheMap\<close>, filled in bulk by one producer call that sets many keys. Each has a
  maintenance goroutine. This theory embeds \<open>Get\<close> and \<open>Set\<close> of \<open>Cache\<close>, one cycle of
  its maintenance loop, calls of \<open>Get\<close> interleaved with one another and with the loop,
  \<open>Get\<close> of \<open>CacheMap\<close> and its maintenance goroutine, and proves what the description
  of the package says of them, or what the code does where the two differ.

  What a piece of code takes from outside (the readings of the clock, whether a
  context is done, the choice of a \<open>select\<close>, the answers of the producer) is an
  argument of its model, so that a theorem holds whatever the clock, the contexts
  and the producer do.
\<close>

section \<open>Time, contexts, channels\<close>

text \<open>
  A \<open>time.Time\<close> is the number of nanoseconds since Go's zero instant, so the zero value
  of the type is \<open>0\<close>. A \<open>time.Duration\<close> is a count of nanoseconds; \<open>t.Sub(u)\<close> saturates
  at the ends of the 64-bit range, as the Go library documents. A shift to the right
  of a duration is \<open>drop_bit\<close>, which rounds down as the shift of a signed integer does.
\<close>

type_synonym Time = int
type_synonym Duration = int

definition maxDuration :: Duration where
  "maxDuration = 2 ^ 63 - 1"

definition minDuration :: Duration where
  "minDuration = - (2 ^ 63)"

definition Sub :: "Time \<Rightarrow> Time \<Rightarrow> Duration" where
  "Sub t u = (if t - u > maxDuration then maxDuration
              else if t - u < minDuration then minDuration else t - u)"

text \<open>\<open>time.Since(t)\<close> is \<open>time.Now().Sub(t)\<close>; the reading of the clock is the first argument.\<close>

definition Since :: "Time \<Rightarrow> Time \<Rightarrow> Duration" where
  "Since now t = Sub now t"

definition After :: "Time \<Rightarrow> Time \<Rightarrow> bool" where
  "After t u = (u < t)"

definition IsZero :: "Time \<Rightarrow> bool" where
  "IsZero t = (t = 0)"

text \<open>
  A context is known by the way it was derived. \<open>Deadline\<close> is the deadline a context
  reports; \<open>WithTimeout\<close> derives a child whose deadline is the reading of the clock plus
  the timeout, unless the parent already ends earlier.
\<close>

datatype "context" = Background | WithCancel "context" | WithDeadline "context" Time

fun Deadline :: "context \<Rightarrow> Time option" where
  "Deadline Background = None"
| "Deadline (WithCancel parent) = Deadline parent"
| "Deadline (WithDeadline parent d) = Some d"

definition WithTimeout :: "context \<Rightarrow> Duration \<Rightarrow> Time \<Rightarrow> context" where
  "WithTimeout parent timeout now =
     (case Deadline parent of
        Some cur \<Rightarrow> if cur < now + timeout then WithCancel parent
                    else WithDeadline parent (now + timeout)
      | None \<Rightarrow> WithDeadline parent (now + timeout))"

text \<open>
  The channels of the program carry no message: they are only ever closed. A receive
  from one can proceed exactly when it is closed.
\<close>

datatype chan = Open | Closed

text \<open>
  The two-way \<open>select\<close> of both \<open>Get\<close> methods: it blocks (\<open>None\<close>) while neither case can
  proceed; when both can, Go takes either one, and \<open>pickCtx\<close> is that choice.
\<close>

datatype selected = CtxDone | GateReady

definition select2 :: "bool \<Rightarrow> bool \<Rightarrow> bool \<Rightarrow> selected option" where
  "select2 ctxDone gateClosed pickCtx =
     (if ctxDone \<and> gateClosed then Some (if pickCtx then CtxDone else GateReady)
      else if ctxDone then Some CtxDone
      else if gateClosed then Some GateReady
      else None)"

datatype 'v outcome = Returned 'v bool | Blocked

datatype status = Running | Stopped

section \<open>The concurrent map\<close>

text \<open>
  The map is an association list with distinct keys; iteration follows the list.
  \<open>GetOrCompute\<close> calls the factory only when the key is absent and reports whether the
  entry was already there; \<open>Del\<close> removes a batch of keys; \<open>ForEach\<close> visits the
  entries until the callback returns false. An element is stored by pointer in the
  program, so a write through the pointer is a write to the slot of its key
  (\<open>AList.update\<close>) as long as the slot has not been replaced.
\<close>

definition GetOrCompute :: "('k \<times> 'a) list \<Rightarrow> 'k \<Rightarrow> (unit \<Rightarrow> 'a) \<Rightarrow> ('k \<times> 'a) list \<times> 'a \<times> bool" where
  "GetOrCompute m key valueFn =
     (case map_of m key of
        Some v \<Rightarrow> (m, v, True)
      | None \<Rightarrow> (let v = valueFn () in (m @ [(key, v)], v, False)))"

definition Del :: "'k list \<Rightarrow> ('k \<times> 'a) list \<Rightarrow> ('k \<times> 'a) list" where
  "Del keys m = filter (\<lambda>kv. fst kv \<notin> set keys) m"

fun ForEach :: "('k \<Rightarrow> 'a \<Rightarrow> 's \<Rightarrow> bool \<times> 's) \<Rightarrow> ('k \<times> 'a) list \<Rightarrow> 's \<Rightarrow> 's" where
  "ForEach f [] s = s"
| "ForEach f ((k, v) # rest) s =
     (case f k v s of (cont, s') \<Rightarrow> if cont then ForEach f rest s' else s')"

section \<open>The per-key cache\<close>

record 'v element =
  data :: 'v
  lastUsed :: Time
  created :: Time
  ready :: "chan option"

text \<open>
  \<open>refreshFunc\<close> is the producer; its first argument is the number of invocations made
  before, so that a producer may answer differently each time. \<open>calls\<close> is the log of
  the invocations made so far (the context and the key of each); the program does
  not hold it, it is kept to count invocations.
\<close>

record ('k, 'v) Cache =
  cacheMap :: "('k \<times> 'v element) list"
  RefreshTime :: Duration
  KeepTime :: Duration
  refreshFunc :: "nat \<Rightarrow> context \<Rightarrow> 'k \<Rightarrow> 'v \<times> bool"
  ctx :: "context"
  calls :: "(context \<times> 'k) list"

definition New :: "Duration \<Rightarrow> Duration \<Rightarrow> (nat \<Rightarrow> context \<Rightarrow> 'k \<Rightarrow> 'v \<times> bool) \<Rightarrow> ('k, 'v) Cache" where
  "New refreshTime keepTime f =
     \<lparr>cacheMap = [], RefreshTime = refreshTime, KeepTime = keepTime, refreshFunc = f,
      ctx = WithCancel Background, calls = []\<rparr>"

text \<open>
  What one \<open>Get\<close> call observes of its surroundings: whether its context is done when it
  reaches the \<open>select\<close>, the choice of the \<open>select\<close> when both cases can proceed, and the
  two readings of the clock (in the factory of the new element, and when \<open>lastUsed\<close> is
  stamped).
\<close>

record getObs =
  ctxDone :: bool
  pickCtx :: bool
  insertedAt :: Time
  usedAt :: Time

text \<open>The element the factory of \<open>Get\<close> builds; \<open>z\<close> is the zero value of the value type.\<close>

definition newElement :: "'v \<Rightarrow> Time \<Rightarrow> 'v element" where
  "newElement z now = \<lparr>data = z, lastUsed = 0, created = now, ready = Some Open\<rparr>"

text \<open>The branch of \<open>Get\<close> for an entry that was already in the map.\<close>

definition Get_loaded :: "('k, 'v) Cache \<Rightarrow> 'k \<Rightarrow> 'v element \<Rightarrow> getObs \<Rightarrow> ('k, 'v) Cache \<times> 'v outcome" where
  "Get_loaded c key val ob =
     (let waited = (case ready val of
                      None \<Rightarrow> Some GateReady
                    | Some ch \<Rightarrow> select2 (ctxDone ob) (ch = Closed) (pickCtx ob))
      in case waited of
           None \<Rightarrow> (c, Blocked)
         | Some CtxDone \<Rightarrow> (c, Returned (data val) False)
         | Some GateReady \<Rightarrow>
             if IsZero (lastUsed val) then (c, Returned (data val) False)
             else (c\<lparr>cacheMap := AList.update key (val\<lparr>lastUsed := usedAt ob\<rparr>) (cacheMap c)\<rparr>,
                   Returned (data val) True))"

text \<open>
  The branch of \<open>Get\<close> for the call that inserted the element, in two parts. First the
  invocation of the producer and, on success, the stores into the element; the
  result holds the element as it then is, whose data the \<open>return\<close> statement reads.
  Then the deferred \<open>close\<close> of the channel, which runs as the call returns.
\<close>

definition Get_produce :: "('k, 'v) Cache \<Rightarrow> context \<Rightarrow> 'k \<Rightarrow> 'v element \<Rightarrow> getObs \<Rightarrow> ('k, 'v) Cache \<times> 'v element \<times> bool" where
  "Get_produce c cx key val ob =
     (case refreshFunc c (length (calls c)) cx key of
        (d, ok) \<Rightarrow>
          let val1 = (if ok then val\<lparr>data := d, lastUsed := usedAt ob\<rparr> else val)
          in (c\<lparr>cacheMap := AList.update key val1 (cacheMap c), calls := calls c @ [(cx, key)]\<rparr>,
              val1, ok))"

definition Get_close :: "('k, 'v) Cache \<Rightarrow> 'k \<Rightarrow> 'v element \<Rightarrow> ('k, 'v) Cache" where
  "Get_close c key val = c\<lparr>cacheMap := AList.update key (val\<lparr>ready := Some Closed\<rparr>) (cacheMap c)\<rparr>"

definition Get_inserted :: "('k, 'v) Cache \<Rightarrow> context \<Rightarrow> 'k \<Rightarrow> 'v element \<Rightarrow> getObs \<Rightarrow> ('k, 'v) Cache \<times> 'v outcome" where
  "Get_inserted c cx key val ob =
     (case Get_produce c cx key val ob of
        (c1, val1, ok) \<Rightarrow> (Get_close c1 key val1, Returned (data val1) ok))"

definition Cache_Get :: "'v \<Rightarrow> ('k, 'v) Cache \<Rightarrow> context \<Rightarrow> 'k \<Rightarrow> getObs \<Rightarrow> ('k, 'v) Cache \<times> 'v outcome" where
  "Cache_Get z c cx key ob =
     (case GetOrCompute (cacheMap c) key (\<lambda>_. newElement z (insertedAt ob)) of
        (m, val, loaded) \<Rightarrow>
          if loaded then Get_loaded c key val ob
          else Get_inserted (c\<lparr>cacheMap := m\<rparr>) cx key val ob)"

definition Cache_Set :: "('k, 'v) Cache \<Rightarrow> 'k \<Rightarrow> 'v \<Rightarrow> Time \<Rightarrow> ('k, 'v) Cache" where
  "Cache_Set c key v now =
     c\<lparr>cacheMap := AList.update key \<lparr>data = v, lastUsed = now, created = now, ready = None\<rparr> (cacheMap c)\<rparr>"

text \<open>
  What the callback of the maintenance loop observes while it visits one entry:
  whether the lifecycle context is cancelled, and the readings of the clock at
  \<open>time.Since(value.created)\<close>, at \<open>time.Since(value.lastUsed)\<close>, inside
  \<open>context.WithTimeout\<close> and at \<open>time.Now()\<close> after the producer returned.
\<close>

record visitObs =
  ctxErr :: bool
  createdCheckedAt :: Time
  usedCheckedAt :: Time
  timeoutSetAt :: Time
  refreshedAt :: Time

text \<open>
  The callback given to \<open>ForEach\<close> by the maintenance loop of \<open>New\<close>. Its state is the
  cache and the list \<open>toDelete\<close>; the boolean is the callback's return value.
\<close>

definition New_visit :: "visitObs \<Rightarrow> 'k \<Rightarrow> 'v element \<Rightarrow> ('k, 'v) Cache \<times> 'k list \<Rightarrow> bool \<times> ('k, 'v) Cache \<times> 'k list" where
  "New_visit ob key val s =
     (case s of (c, toDelete) \<Rightarrow>
        if ctxErr ob then (False, c, toDelete)
        else
          let sinceCreated = Since (createdCheckedAt ob) (created val) in
          if KeepTime c > 0 \<and> sinceCreated > KeepTime c then (True, c, toDelete @ [key])
          else if sinceCreated < RefreshTime c then (True, c, toDelete)
          else if After (created val) (lastUsed val) then (True, c, toDelete)
          else if Since (usedCheckedAt ob) (lastUsed val) < drop_bit 1 (RefreshTime c) then
            (let withTimeout = WithTimeout (ctx c) (drop_bit 1 (RefreshTime c)) (timeoutSetAt ob);
                 c1 = c\<lparr>calls := calls c @ [(withTimeout, key)]\<rparr>
             in case refreshFunc c (length (calls c)) withTimeout key of
                  (d, ok) \<Rightarrow>
                    if \<not> ok then (True, c1, toDelete)
                    else (True,
                          c1\<lparr>cacheMap := AList.update key (val\<lparr>data := d, created := refreshedAt ob\<rparr>)
                                           (cacheMap c1)\<rparr>,
                          toDelete))
          else (True, c, toDelete))"

text \<open>
  One pass of the loop body after the sleep and the check of the context: the walk
  over the entries, then the batch delete. \<open>obs key\<close> is what the callback observes
  while it visits \<open>key\<close>.
\<close>

definition New_sweep :: "('k \<Rightarrow> visitObs) \<Rightarrow> ('k, 'v) Cache \<Rightarrow> ('k, 'v) Cache" where
  "New_sweep obs c =
     (case ForEach (\<lambda>key val. New_visit (obs key) key val) (cacheMap c) (c, []) of
        (c', toDelete) \<Rightarrow> c'\<lparr>cacheMap := Del toDelete (cacheMap c')\<rparr>)"

definition Clear :: "('k, 'v) Cache \<Rightarrow> ('k, 'v) Cache" where
  "Clear c = c\<lparr>cacheMap := []\<rparr>"

text \<open>
  One maintenance cycle: the body of the \<open>for\<close> loop from the sleep on, followed by the
  next evaluation of the loop condition. \<open>errAfterSleep\<close> and \<open>errAtLoop\<close> say whether the
  lifecycle context is found cancelled by the check after the sleep and by the loop
  condition; in both cases the loop is left and the map is cleared.
\<close>

definition New_cycle :: "bool \<Rightarrow> ('k \<Rightarrow> visitObs) \<Rightarrow> bool \<Rightarrow> ('k, 'v) Cache \<Rightarrow> ('k, 'v) Cache \<times> status" where
  "New_cycle errAfterSleep obs errAtLoop c =
     (if errAfterSleep then (Clear c, Stopped)
      else let c' = New_sweep obs c
           in if errAtLoop then (Clear c', Stopped) else (c', Running))"

section \<open>A cache for the examples\<close>

text \<open>
  The cache of the repository's test: a refresh time of three seconds, a keep time of
  one hour, and a producer that returns the length of the key. The other values are
  states this cache can be in, observations of calls made on it, and the same cache
  with a producer that fails.
\<close>

definition lenProducer :: "nat \<Rightarrow> context \<Rightarrow> string \<Rightarrow> int \<times> bool" where
  "lenProducer n cx s = (int (length s), True)"

definition testCache :: "(string, int) Cache" where
  "testCache = New 3000000000 3600000000000 lenProducer"

definition testObs :: getObs where
  "testObs = \<lparr>ctxDone = False, pickCtx = False, insertedAt = 100, usedAt = 200\<rparr>"

definition usedEntry :: "int element" where
  "usedEntry = \<lparr>data = 3, lastUsed = 200, created = 100, ready = Some Closed\<rparr>"

definition visitAt :: "Time \<Rightarrow> visitObs" where
  "visitAt t = \<lparr>ctxErr = False, createdCheckedAt = t, usedCheckedAt = t, timeoutSetAt = t,
                 refreshedAt = t\<rparr>"

definition hotEntry :: "int element" where
  "hotEntry = usedEntry\<lparr>lastUsed := 2500000000\<rparr>"

definition hotCache :: "(string, int) Cache" where
  "hotCache = testCache\<lparr>cacheMap := [(''one'', hotEntry)]\<rparr>"

definition shortKeepCache :: "(string, int) Cache" where
  "shortKeepCache = hotCache\<lparr>KeepTime := 2000000000\<rparr>"

definition noKeepCache :: "(string, int) Cache" where
  "noKeepCache = hotCache\<lparr>KeepTime := 0\<rparr>"

definition pendingCache :: "(string, int) Cache" where
  "pendingCache = testCache\<lparr>cacheMap := [(''one'', newElement 0 100)]\<rparr>"

definition failedCache :: "(string, int) Cache" where
  "failedCache = testCache\<lparr>cacheMap := [(''one'', (newElement 0 100)\<lparr>ready := Some Closed\<rparr>)]\<rparr>"

definition laterObs :: getObs where
  "laterObs = \<lparr>ctxDone = False, pickCtx = False, insertedAt = 2600000000, usedAt = 2700000000\<rparr>"

definition doneObs :: getObs where
  "doneObs = \<lparr>ctxDone = True, pickCtx = True, insertedAt = 2600000000, usedAt = 2700000000\<rparr>"

definition refusingProducer :: "nat \<Rightarrow> context \<Rightarrow> string \<Rightarrow> int \<times> bool" where
  "refusingProducer n cx s = (7, False)"

definition refusingCache :: "(string, int) Cache" where
  "refusingCache = New 3000000000 3600000000000 refusingProducer"

definition refusedHotCache :: "(string, int) Cache" where
  "refusedHotCache = refusingCache\<lparr>cacheMap := [(''one'', hotEntry)]\<rparr>"

section \<open>Get on an absent key\<close>

lemma map_of_snoc_new:
  "map_of m key = None \<Longrightarrow> map_of (m @ [(key, v)]) key = Some v"
  by (simp add: map_add_def)

lemma map_of_snoc_other:
  "k \<noteq> key \<Longrightarrow> map_of (m @ [(key, v)]) k = map_of m k"
  by (simp add: map_add_def split: option.splits)

lemma GetOrCompute_absent:
  "map_of m key = None \<Longrightarrow> GetOrCompute m key f = (m @ [(key, f ())], f (), False)"
  by (simp add: GetOrCompute_def Let_def)

lemma GetOrCompute_present:
  "map_of m key = Some v \<Longrightarrow> GetOrCompute m key f = (m, v, True)"
  by (simp add: GetOrCompute_def)

text \<open>
  C2 (as the code has it). A \<open>Get\<close> on an absent key never blocks and invokes the
  producer exactly once, with the caller's context and the key. The slot it leaves
  has its channel closed whatever the producer answered, and the element was built
  with the channel open, so the close happens once. \<open>created\<close> is the reading of the
  clock taken when the slot was inserted, before the producer ran, on both outcomes.
  On success the data is the produced value, \<open>lastUsed\<close> is the reading taken after
  the producer returned, and the call returns the produced value and true. On failure
  the data stays the zero value, \<open>lastUsed\<close> stays zero, and the call returns the zero
  value and false. No other key is touched.
\<close>

theorem Cache_Get_performs_insert:
  assumes "map_of (cacheMap c) key = None"
    and "refreshFunc c (length (calls c)) cx key = (d, ok)"
    and "Cache_Get z c cx key ob = (c', r)"
  shows "calls c' = calls c @ [(cx, key)]
    \<and> ready (newElement z (insertedAt ob)) = Some Open
    \<and> map_option ready (map_of (cacheMap c') key) = Some (Some Closed)
    \<and> map_option created (map_of (cacheMap c') key) = Some (insertedAt ob)
    \<and> (ok \<longrightarrow> map_option data (map_of (cacheMap c') key) = Some d
            \<and> map_option lastUsed (map_of (cacheMap c') key) = Some (usedAt ob)
            \<and> r = Returned d True)
    \<and> (\<not> ok \<longrightarrow> map_option data (map_of (cacheMap c') key) = Some z
            \<and> map_option lastUsed (map_of (cacheMap c') key) = Some 0
            \<and> r = Returned z False)
    \<and> (\<forall>k. k \<noteq> key \<longrightarrow> map_of (cacheMap c') k = map_of (cacheMap c) k)"
  using assms
  by (cases ok)
    (auto simp: Cache_Get_def GetOrCompute_def Get_inserted_def Get_produce_def Get_close_def
      newElement_def Let_def update_conv' map_add_def split: option.splits)

text \<open>
  C2, instances: on the test cache, with the clock at 100 when the slot is inserted
  and at 200 when the producer has returned; and on a cache whose producer returns 7
  and false, where the call returns the zero value, not the 7.
\<close>

theorem Cache_Get_performs_insert_witness:
  "map_of (cacheMap testCache) ''one'' = None
   \<and> refreshFunc testCache (length (calls testCache)) Background ''one'' = (3, True)
   \<and> calls (fst (Cache_Get 0 testCache Background ''one'' testObs)) = [(Background, ''one'')]
   \<and> map_of (cacheMap (fst (Cache_Get 0 testCache Background ''one'' testObs))) ''one''
       = Some \<lparr>data = 3, lastUsed = 200, created = 100, ready = Some Closed\<rparr>
   \<and> snd (Cache_Get 0 testCache Background ''one'' testObs) = Returned 3 True
   \<and> map_of (cacheMap refusingCache) ''one'' = None
   \<and> refreshFunc refusingCache (length (calls refusingCache)) Background ''one'' = (7, False)
   \<and> map_of (cacheMap (fst (Cache_Get 0 refusingCache Background ''one'' testObs))) ''one''
       = Some \<lparr>data = 0, lastUsed = 0, created = 100, ready = Some Closed\<rparr>
   \<and> snd (Cache_Get 0 refusingCache Background ''one'' testObs) = Returned 0 False"
proof -
  let ?g = "Cache_Get 0 testCache Background ''one'' testObs"
  let ?r = "Cache_Get 0 refusingCache Background ''one'' testObs"
  have a: "map_of (cacheMap testCache) ''one'' = None"
    "refreshFunc testCache (length (calls testCache)) Background ''one'' = (3, True)"
    by (simp_all add: testCache_def New_def lenProducer_def)
  have b: "map_of (cacheMap refusingCache) ''one'' = None"
    "refreshFunc refusingCache (length (calls refusingCache)) Background ''one'' = (7, False)"
    by (simp_all add: refusingCache_def New_def refusingProducer_def)
  obtain e where e: "map_of (cacheMap (fst ?g)) ''one'' = Some e"
    "calls (fst ?g) = [(Background, ''one'')]"
    "ready e = Some Closed" "created e = 100" "data e = 3" "lastUsed e = 200"
    "snd ?g = Returned 3 True"
    using Cache_Get_performs_insert [OF a, of 0 testObs "fst ?g" "snd ?g"]
    by (auto simp: testCache_def New_def testObs_def)
  obtain f where f: "map_of (cacheMap (fst ?r)) ''one'' = Some f"
    "ready f = Some Closed" "created f = 100" "data f = 0" "lastUsed f = 0"
    "snd ?r = Returned 0 False"
    using Cache_Get_performs_insert [OF b, of 0 testObs "fst ?r" "snd ?r"]
    by (auto simp: testObs_def)
  have "e = \<lparr>data = 3, lastUsed = 200, created = 100, ready = Some Closed\<rparr>"
    "f = \<lparr>data = 0, lastUsed = 0, created = 100, ready = Some Closed\<rparr>"
    using e f by simp_all
  then show ?thesis using a b e f by simp
qed

text \<open>
  C2 as the specification words it has \<open>created\<close> and \<open>lastUsed\<close> both stamped to the time
  after a successful producer call. On the test cache the call succeeds, \<open>lastUsed\<close> is
  200 and \<open>created\<close> is not.
\<close>

theorem Cache_Get_created_counterexample:
  "snd (Cache_Get 0 testCache Background ''one'' testObs) = Returned 3 True
   \<and> map_option lastUsed (map_of (cacheMap (fst (Cache_Get 0 testCache Background ''one'' testObs))) ''one'')
       = Some 200
   \<and> map_option created (map_of (cacheMap (fst (Cache_Get 0 testCache Background ''one'' testObs))) ''one'')
       \<noteq> Some 200"
  by (simp add: testCache_def testObs_def New_def lenProducer_def Cache_Get_def GetOrCompute_def
      Get_inserted_def Get_produce_def Get_close_def newElement_def Let_def)

section \<open>Get on a slot that already exists\<close>

lemma map_of_Del: "map_of (Del ks m) k = (if k \<in> set ks then None else map_of m k)"
  by (induction m) (auto simp: Del_def)

lemma Cache_Get_loaded:
  "map_of (cacheMap c) key = Some val \<Longrightarrow> Cache_Get z c cx key ob = Get_loaded c key val ob"
  by (simp add: Cache_Get_def GetOrCompute_def)

lemma Cache_Get_absent_calls:
  "map_of (cacheMap c) key = None \<Longrightarrow>
     calls (fst (Cache_Get z c cx key ob)) = calls c @ [(cx, key)]"
  by (simp add: Cache_Get_def GetOrCompute_def Get_inserted_def Get_produce_def Get_close_def
      Let_def split: prod.splits)

text \<open>
  C3 (as the code has it). For a \<open>Get\<close> on a key whose slot is in the map:
  while the channel of the slot is open the call waits, and when the caller's context
  is done it returns the current data and false, leaving the cache as it was. When
  the channel is closed or the slot has none, a slot whose \<open>lastUsed\<close> is zero gives the
  data and false and the cache is unchanged, so that the next \<open>Get\<close> answers the same.
  Otherwise the call stamps \<open>lastUsed\<close> and returns the data and true, provided the
  \<open>select\<close> did not take the branch of a context that is already done; if it did, the
  call returns the data and false and stamps nothing. A \<open>Get\<close> after a \<open>Set\<close> of the key
  returns the value set and true, and a \<open>Get\<close> after the key was deleted invokes the
  producer again.
\<close>

theorem Cache_Get_existing_slot:
  assumes "map_of (cacheMap c) key = Some val"
  shows "(ready val = Some Open \<and> \<not> ctxDone ob \<longrightarrow> Cache_Get z c cx key ob = (c, Blocked))
    \<and> (ready val = Some Open \<and> ctxDone ob \<longrightarrow>
         Cache_Get z c cx key ob = (c, Returned (data val) False))
    \<and> (ready val \<noteq> Some Open \<and> IsZero (lastUsed val) \<longrightarrow>
         Cache_Get z c cx key ob = (c, Returned (data val) False))
    \<and> (ready val \<noteq> Some Open \<and> \<not> IsZero (lastUsed val)
          \<and> (ready val = None \<or> \<not> ctxDone ob \<or> \<not> pickCtx ob) \<longrightarrow>
         Cache_Get z c cx key ob =
           (c\<lparr>cacheMap := AList.update key (val\<lparr>lastUsed := usedAt ob\<rparr>) (cacheMap c)\<rparr>,
            Returned (data val) True))
    \<and> (ready val = Some Closed \<and> ctxDone ob \<and> pickCtx ob \<longrightarrow>
         Cache_Get z c cx key ob = (c, Returned (data val) False))
    \<and> (now \<noteq> 0 \<longrightarrow> snd (Cache_Get z (Cache_Set c key v now) cx key ob) = Returned v True)
    \<and> calls (fst (Cache_Get z (c\<lparr>cacheMap := Del [key] (cacheMap c)\<rparr>) cx key ob))
         = calls c @ [(cx, key)]"
proof (intro conjI impI)
  note get = Cache_Get_loaded [OF assms]
  show "Cache_Get z c cx key ob = (c, Blocked)" if "ready val = Some Open \<and> \<not> ctxDone ob"
    using that by (simp add: get Get_loaded_def select2_def)
  show "Cache_Get z c cx key ob = (c, Returned (data val) False)"
    if "ready val = Some Open \<and> ctxDone ob"
    using that by (simp add: get Get_loaded_def select2_def)
  show "Cache_Get z c cx key ob = (c, Returned (data val) False)"
    if "ready val \<noteq> Some Open \<and> IsZero (lastUsed val)"
  proof (cases "ready val")
    case None
    then show ?thesis using that by (simp add: get Get_loaded_def)
  next
    case (Some ch)
    then have "ch = Closed" using that by (cases ch) simp_all
    then show ?thesis using that Some by (simp add: get Get_loaded_def select2_def)
  qed
  show "Cache_Get z c cx key ob =
           (c\<lparr>cacheMap := AList.update key (val\<lparr>lastUsed := usedAt ob\<rparr>) (cacheMap c)\<rparr>,
            Returned (data val) True)"
    if "ready val \<noteq> Some Open \<and> \<not> IsZero (lastUsed val)
          \<and> (ready val = None \<or> \<not> ctxDone ob \<or> \<not> pickCtx ob)"
  proof (cases "ready val")
    case None
    then show ?thesis using that by (simp add: get Get_loaded_def)
  next
    case (Some ch)
    then have "ch = Closed" using that by (cases ch) simp_all
    then show ?thesis using that Some by (auto simp: get Get_loaded_def select2_def)
  qed
  show "Cache_Get z c cx key ob = (c, Returned (data val) False)"
    if "ready val = Some Closed \<and> ctxDone ob \<and> pickCtx ob"
    using that by (simp add: get Get_loaded_def select2_def)
  show "snd (Cache_Get z (Cache_Set c key v now) cx key ob) = Returned v True" if "now \<noteq> 0"
  proof -
    have "map_of (cacheMap (Cache_Set c key v now)) key
            = Some \<lparr>data = v, lastUsed = now, created = now, ready = None\<rparr>"
      by (simp add: Cache_Set_def update_conv')
    from Cache_Get_loaded [OF this] show ?thesis
      using that by (simp add: Get_loaded_def IsZero_def)
  qed
  show "calls (fst (Cache_Get z (c\<lparr>cacheMap := Del [key] (cacheMap c)\<rparr>) cx key ob))
         = calls c @ [(cx, key)]"
    using Cache_Get_absent_calls [of "c\<lparr>cacheMap := Del [key] (cacheMap c)\<rparr>" key z cx ob]
    by (simp add: map_of_Del)
qed

text \<open>
  C3, instances: a slot whose first computation is in flight, a slot whose first
  computation failed, and a populated slot, each read with a live and with a done
  context; then the failed slot after a \<open>Set\<close> and after its deletion.
\<close>

theorem Cache_Get_existing_slot_witness:
  "map_of (cacheMap pendingCache) ''one'' = Some (newElement 0 100)
   \<and> ready (newElement (0::int) 100) = Some Open
   \<and> \<not> ctxDone laterObs \<and> ctxDone doneObs \<and> pickCtx doneObs
   \<and> Cache_Get 0 pendingCache Background ''one'' laterObs = (pendingCache, Blocked)
   \<and> Cache_Get 0 pendingCache Background ''one'' doneObs = (pendingCache, Returned 0 False)
   \<and> map_of (cacheMap failedCache) ''one'' = Some ((newElement 0 100)\<lparr>ready := Some Closed\<rparr>)
   \<and> IsZero (lastUsed ((newElement (0::int) 100)\<lparr>ready := Some Closed\<rparr>))
   \<and> Cache_Get 0 failedCache Background ''one'' laterObs = (failedCache, Returned 0 False)
   \<and> map_of (cacheMap hotCache) ''one'' = Some hotEntry
   \<and> ready hotEntry = Some Closed \<and> \<not> IsZero (lastUsed hotEntry)
   \<and> Cache_Get 0 hotCache Background ''one'' laterObs
       = (hotCache\<lparr>cacheMap := [(''one'', hotEntry\<lparr>lastUsed := 2700000000\<rparr>)]\<rparr>, Returned 3 True)
   \<and> Cache_Get 0 hotCache Background ''one'' doneObs = (hotCache, Returned 3 False)
   \<and> snd (Cache_Get 0 (Cache_Set failedCache ''one'' 7 2650000000) Background ''one'' laterObs)
       = Returned 7 True
   \<and> calls (fst (Cache_Get 0 (failedCache\<lparr>cacheMap := Del [''one''] (cacheMap failedCache)\<rparr>)
        Background ''one'' laterObs)) = [(Background, ''one'')]"
proof -
  have p: "map_of (cacheMap pendingCache) ''one'' = Some (newElement 0 100)"
    by (simp add: pendingCache_def)
  have f: "map_of (cacheMap failedCache) ''one'' = Some ((newElement 0 100)\<lparr>ready := Some Closed\<rparr>)"
    by (simp add: failedCache_def)
  have h: "map_of (cacheMap hotCache) ''one'' = Some hotEntry"
    by (simp add: hotCache_def)
  have o: "ready (newElement (0::int) 100) = Some Open" "\<not> ctxDone laterObs" "ctxDone doneObs"
    "pickCtx doneObs" "IsZero (lastUsed ((newElement (0::int) 100)\<lparr>ready := Some Closed\<rparr>))"
    "ready hotEntry = Some Closed" "\<not> IsZero (lastUsed hotEntry)"
    by (simp_all add: newElement_def laterObs_def doneObs_def IsZero_def hotEntry_def usedEntry_def)
  have 1: "Cache_Get 0 pendingCache Background ''one'' laterObs = (pendingCache, Blocked)"
    using Cache_Get_existing_slot [OF p, of laterObs 0 Background] o by simp
  have 2: "Cache_Get 0 pendingCache Background ''one'' doneObs = (pendingCache, Returned 0 False)"
    using Cache_Get_existing_slot [OF p, of doneObs 0 Background] o by (simp add: newElement_def)
  have 3: "Cache_Get 0 failedCache Background ''one'' laterObs = (failedCache, Returned 0 False)"
    using Cache_Get_existing_slot [OF f, of laterObs 0 Background] o by (simp add: newElement_def)
  have 4: "Cache_Get 0 hotCache Background ''one'' laterObs
       = (hotCache\<lparr>cacheMap := [(''one'', hotEntry\<lparr>lastUsed := 2700000000\<rparr>)]\<rparr>, Returned 3 True)"
    using Cache_Get_existing_slot [OF h, of laterObs 0 Background] o
    by (simp add: hotCache_def hotEntry_def usedEntry_def laterObs_def)
  have 5: "Cache_Get 0 hotCache Background ''one'' doneObs = (hotCache, Returned 3 False)"
    using Cache_Get_existing_slot [OF h, of doneObs 0 Background] o
    by (simp add: hotEntry_def usedEntry_def)
  have 6: "snd (Cache_Get 0 (Cache_Set failedCache ''one'' 7 2650000000) Background ''one'' laterObs)
       = Returned 7 True"
    using Cache_Get_existing_slot [OF f, of laterObs 0 Background 2650000000 7] by simp
  have 7: "calls (fst (Cache_Get 0 (failedCache\<lparr>cacheMap := Del [''one''] (cacheMap failedCache)\<rparr>)
        Background ''one'' laterObs)) = [(Background, ''one'')]"
    using Cache_Get_existing_slot [OF f, of laterObs 0 Background]
    by (simp add: failedCache_def testCache_def New_def)
  show ?thesis using p f h o 1 2 3 4 5 6 7 by blast
qed

text \<open>
  C3 as the specification words it has every \<open>Get\<close> on a populated slot with a resolved
  gate stamp \<open>lastUsed\<close> and return true. With a context that is already done the
  \<open>select\<close> may take the context's branch: the call returns false and the cache is
  unchanged.
\<close>

theorem Cache_Get_done_context_counterexample:
  "map_of (cacheMap hotCache) ''one'' = Some hotEntry
   \<and> ready hotEntry = Some Closed \<and> \<not> IsZero (lastUsed hotEntry)
   \<and> Cache_Get 0 hotCache Background ''one'' doneObs = (hotCache, Returned 3 False)"
  by (simp add: hotCache_def hotEntry_def usedEntry_def IsZero_def doneObs_def Cache_Get_def
      GetOrCompute_def Get_loaded_def select2_def)

section \<open>The maintenance loop of the per-key cache\<close>

subsection \<open>One visit\<close>

lemma keys_update_present:
  "k \<in> fst ` set m \<Longrightarrow> map fst (AList.update k v m) = map fst m"
  by (simp add: update_keys)

lemma New_visit_fields:
  assumes "New_visit ob key val (c, td) = (cont, c', td')"
  shows "KeepTime c' = KeepTime c \<and> RefreshTime c' = RefreshTime c \<and> ctx c' = ctx c
         \<and> refreshFunc c' = refreshFunc c"
  using assms
  by (auto simp: New_visit_def Let_def split: if_splits prod.splits)

lemma New_visit_toDelete:
  assumes "New_visit ob key val (c, td) = (cont, c', td')"
  shows "td' = td \<or> (td' = td @ [key] \<and> KeepTime c > 0
           \<and> Since (createdCheckedAt ob) (created val) > KeepTime c)"
  using assms
  by (auto simp: New_visit_def Let_def split: if_splits prod.splits)

lemma New_visit_other:
  assumes "New_visit ob key val (c, td) = (cont, c', td')" and "k \<noteq> key"
  shows "map_of (cacheMap c') k = map_of (cacheMap c) k
         \<and> filter (\<lambda>x. snd x = k) (calls c') = filter (\<lambda>x. snd x = k) (calls c)"
  using assms
  by (auto simp: New_visit_def Let_def update_conv' split: if_splits prod.splits)

lemma New_visit_keys:
  assumes "New_visit ob key val (c, td) = (cont, c', td')" and "key \<in> fst ` set (cacheMap c)"
  shows "map fst (cacheMap c') = map fst (cacheMap c)"
  using assms(1) keys_update_present [OF assms(2)]
  by (auto simp: New_visit_def Let_def split: if_splits prod.splits)

lemma New_visit_old:
  assumes "New_visit ob key val (c, td) = (cont, c', td')"
    and "\<not> ctxErr ob" and "KeepTime c > 0"
    and "Since (createdCheckedAt ob) (created val) > KeepTime c"
  shows "cont \<and> td' = td @ [key]"
  using assms
  by (auto simp: New_visit_def Let_def split: if_splits prod.splits)

lemma New_visit_continues:
  assumes "New_visit ob key val (c, td) = (cont, c', td')"
  shows "cont = (\<not> ctxErr ob)"
  using assms
  by (auto simp: New_visit_def Let_def split: if_splits prod.splits)

lemma New_visit_fresh:
  assumes "New_visit ob key val (c, td) = (cont, c', td')"
    and "Since (createdCheckedAt ob) (created val) < RefreshTime c"
    and "\<not> (KeepTime c > 0 \<and> Since (createdCheckedAt ob) (created val) > KeepTime c)"
  shows "c' = c \<and> td' = td"
  using assms
  by (auto simp: New_visit_def Let_def split: if_splits prod.splits)

lemma Deadline_WithTimeout:
  "\<exists>dl. Deadline (WithTimeout parent timeout now) = Some dl \<and> dl \<le> now + timeout"
  by (cases "Deadline parent") (auto simp: WithTimeout_def)

lemma Since_small [simp]:
  "- 9000000000000000000 \<le> t - u \<Longrightarrow> t - u \<le> 9000000000000000000 \<Longrightarrow> Since t u = t - u"
  by (simp add: Since_def Sub_def maxDuration_def minDuration_def)

text \<open>
  C6. When the callback visits an entry that is not past the keep time, is not fresh,
  was read since it was created and was read less than half a refresh time ago, it
  invokes the producer exactly once, for the key of the entry, with a context whose
  deadline is at most half a refresh time after the reading of the clock. If the
  producer succeeds, the slot holds the entry with the new data and with \<open>created\<close> set
  to the reading of the clock after the call, and nothing else of it is changed; if
  the producer fails, the map is exactly as before. The key is not marked for deletion
  and the walk continues.
\<close>

theorem New_visit_proactive_refresh:
  assumes "\<not> ctxErr ob"
    and "\<not> (KeepTime c > 0 \<and> Since (createdCheckedAt ob) (created val) > KeepTime c)"
    and "\<not> Since (createdCheckedAt ob) (created val) < RefreshTime c"
    and "\<not> After (created val) (lastUsed val)"
    and "Since (usedCheckedAt ob) (lastUsed val) < drop_bit 1 (RefreshTime c)"
    and "New_visit ob key val (c, toDelete) = (cont, c', toDelete')"
  shows "\<exists>cx d ok dl.
      calls c' = calls c @ [(cx, key)]
    \<and> Deadline cx = Some dl \<and> dl \<le> timeoutSetAt ob + RefreshTime c div 2
    \<and> refreshFunc c (length (calls c)) cx key = (d, ok)
    \<and> (ok \<longrightarrow> cacheMap c' = AList.update key (val\<lparr>data := d, created := refreshedAt ob\<rparr>) (cacheMap c))
    \<and> (\<not> ok \<longrightarrow> cacheMap c' = cacheMap c)
    \<and> toDelete' = toDelete \<and> cont"
proof -
  let ?cx = "WithTimeout (ctx c) (drop_bit 1 (RefreshTime c)) (timeoutSetAt ob)"
  obtain d ok where p: "refreshFunc c (length (calls c)) ?cx key = (d, ok)"
    by (cases "refreshFunc c (length (calls c)) ?cx key")
  obtain dl where dl: "Deadline ?cx = Some dl" "dl \<le> timeoutSetAt ob + drop_bit 1 (RefreshTime c)"
    using Deadline_WithTimeout by blast
  have half: "drop_bit 1 (RefreshTime c) = RefreshTime c div 2"
    by (simp add: drop_bit_eq_div)
  have "calls c' = calls c @ [(?cx, key)]
    \<and> (ok \<longrightarrow> cacheMap c' = AList.update key (val\<lparr>data := d, created := refreshedAt ob\<rparr>) (cacheMap c))
    \<and> (\<not> ok \<longrightarrow> cacheMap c' = cacheMap c)
    \<and> toDelete' = toDelete \<and> cont"
    using assms p by (cases ok) (auto simp: New_visit_def Let_def)
  then show ?thesis
    using p dl half by metis
qed

text \<open>
  C6, instances: the entry of the test cache, created at 100 and read at 2.5 s, is
  visited at 3.1 s. The producer is called with a deadline at 4.6 s, and \<open>created\<close>
  becomes 3.1 s. With a producer that fails, the call is made and the map is unchanged.
\<close>

theorem New_visit_proactive_refresh_witness:
  "\<not> ctxErr (visitAt 3100000000)
   \<and> \<not> (KeepTime hotCache > 0
        \<and> Since (createdCheckedAt (visitAt 3100000000)) (created hotEntry) > KeepTime hotCache)
   \<and> \<not> Since (createdCheckedAt (visitAt 3100000000)) (created hotEntry) < RefreshTime hotCache
   \<and> \<not> After (created hotEntry) (lastUsed hotEntry)
   \<and> Since (usedCheckedAt (visitAt 3100000000)) (lastUsed hotEntry) < drop_bit 1 (RefreshTime hotCache)
   \<and> New_visit (visitAt 3100000000) ''one'' hotEntry (hotCache, [])
       = (True,
          hotCache\<lparr>cacheMap := [(''one'', hotEntry\<lparr>created := 3100000000\<rparr>)],
                    calls := [(WithDeadline (WithCancel Background) 4600000000, ''one'')]\<rparr>,
          [])
   \<and> New_visit (visitAt 3100000000) ''one'' hotEntry (refusedHotCache, [])
       = (True,
          refusedHotCache\<lparr>calls := [(WithDeadline (WithCancel Background) 4600000000, ''one'')]\<rparr>,
          [])
   \<and> (\<exists>cx dl. calls (hotCache\<lparr>cacheMap := [(''one'', hotEntry\<lparr>created := 3100000000\<rparr>)],
                    calls := [(WithDeadline (WithCancel Background) 4600000000, ''one'')]\<rparr>)
                 = calls hotCache @ [(cx, ''one'')]
        \<and> Deadline cx = Some dl \<and> dl \<le> 3100000000 + 3000000000 div 2)
   \<and> cacheMap (refusedHotCache\<lparr>calls := [(WithDeadline (WithCancel Background) 4600000000, ''one'')]\<rparr>)
       = cacheMap refusedHotCache"
proof -
  let ?ob = "visitAt 3100000000"
  let ?c' = "hotCache\<lparr>cacheMap := [(''one'', hotEntry\<lparr>created := 3100000000\<rparr>)],
                    calls := [(WithDeadline (WithCancel Background) 4600000000, ''one'')]\<rparr>"
  let ?r' = "refusedHotCache\<lparr>calls := [(WithDeadline (WithCancel Background) 4600000000, ''one'')]\<rparr>"
  have h1: "\<not> ctxErr ?ob" by (simp add: visitAt_def)
  have h2: "\<not> (KeepTime hotCache > 0 \<and> Since (createdCheckedAt ?ob) (created hotEntry) > KeepTime hotCache)"
    by (simp add: visitAt_def hotCache_def testCache_def New_def hotEntry_def usedEntry_def)
  have h3: "\<not> Since (createdCheckedAt ?ob) (created hotEntry) < RefreshTime hotCache"
    by (simp add: visitAt_def hotCache_def testCache_def New_def hotEntry_def usedEntry_def)
  have h4: "\<not> After (created hotEntry) (lastUsed hotEntry)"
    by (simp add: After_def hotEntry_def usedEntry_def)
  have h5: "Since (usedCheckedAt ?ob) (lastUsed hotEntry) < drop_bit 1 (RefreshTime hotCache)"
    by (simp add: visitAt_def hotCache_def testCache_def New_def hotEntry_def usedEntry_def
        drop_bit_eq_div)
  have h6: "New_visit ?ob ''one'' hotEntry (hotCache, []) = (True, ?c', [])"
    by (simp add: New_visit_def visitAt_def hotCache_def testCache_def New_def hotEntry_def
        usedEntry_def drop_bit_eq_div After_def lenProducer_def WithTimeout_def Let_def)
  have r2: "\<not> (KeepTime refusedHotCache > 0
        \<and> Since (createdCheckedAt ?ob) (created hotEntry) > KeepTime refusedHotCache)"
    by (simp add: visitAt_def refusedHotCache_def refusingCache_def New_def hotEntry_def usedEntry_def)
  have r3: "\<not> Since (createdCheckedAt ?ob) (created hotEntry) < RefreshTime refusedHotCache"
    by (simp add: visitAt_def refusedHotCache_def refusingCache_def New_def hotEntry_def usedEntry_def)
  have r5: "Since (usedCheckedAt ?ob) (lastUsed hotEntry) < drop_bit 1 (RefreshTime refusedHotCache)"
    by (simp add: visitAt_def refusedHotCache_def refusingCache_def New_def hotEntry_def usedEntry_def
        drop_bit_eq_div)
  have r6: "New_visit ?ob ''one'' hotEntry (refusedHotCache, []) = (True, ?r', [])"
    by (simp add: New_visit_def visitAt_def refusedHotCache_def refusingCache_def New_def
        hotEntry_def usedEntry_def drop_bit_eq_div After_def refusingProducer_def WithTimeout_def
        Let_def)
  have a: "\<exists>cx dl. calls ?c' = calls hotCache @ [(cx, ''one'')]
        \<and> Deadline cx = Some dl \<and> dl \<le> 3100000000 + 3000000000 div 2"
    using New_visit_proactive_refresh [OF h1 h2 h3 h4 h5 h6]
    by (simp add: visitAt_def hotCache_def testCache_def New_def)
  have b: "cacheMap ?r' = cacheMap refusedHotCache"
    using New_visit_proactive_refresh [OF h1 r2 r3 h4 r5 r6]
    by (auto simp: refusedHotCache_def refusingCache_def New_def refusingProducer_def)
  show ?thesis using h1 h2 h3 h4 h5 h6 r6 a b by blast
qed

subsection \<open>One sweep\<close>

lemma ForEach_fields:
  assumes "ForEach (\<lambda>key val. New_visit (obs key) key val) es (c, td) = (c', td')"
  shows "KeepTime c' = KeepTime c \<and> RefreshTime c' = RefreshTime c"
  using assms
proof (induction es arbitrary: c td)
  case Nil
  then show ?case by simp
next
  case (Cons x es)
  obtain k v where x: "x = (k, v)" by (cases x)
  obtain cont c1 td1 where v: "New_visit (obs k) k v (c, td) = (cont, c1, td1)"
    by (cases "New_visit (obs k) k v (c, td)")
  show ?case
    using Cons.IH [of c1 td1] Cons.prems New_visit_fields [OF v]
    by (cases cont) (simp_all add: x v)
qed

lemma ForEach_other:
  assumes "ForEach (\<lambda>key val. New_visit (obs key) key val) es (c, td) = (c', td')"
    and "k \<notin> fst ` set es"
  shows "map_of (cacheMap c') k = map_of (cacheMap c) k
         \<and> filter (\<lambda>x. snd x = k) (calls c') = filter (\<lambda>x. snd x = k) (calls c)
         \<and> (k \<in> set td') = (k \<in> set td)"
  using assms
proof (induction es arbitrary: c td)
  case Nil
  then show ?case by simp
next
  case (Cons x es)
  obtain k1 v where x: "x = (k1, v)" by (cases x)
  obtain cont c1 td1 where v: "New_visit (obs k1) k1 v (c, td) = (cont, c1, td1)"
    by (cases "New_visit (obs k1) k1 v (c, td)")
  from Cons.prems x have ne: "k \<noteq> k1" and notin: "k \<notin> fst ` set es" by auto
  have td1: "(k \<in> set td1) = (k \<in> set td)"
    using New_visit_toDelete [OF v] ne by auto
  show ?case
    using Cons.IH [of c1 td1] Cons.prems(1) New_visit_other [OF v ne] td1 notin
    by (cases cont) (simp_all add: x v)
qed

lemma ForEach_toDelete_grows:
  assumes "ForEach (\<lambda>key val. New_visit (obs key) key val) es (c, td) = (c', td')"
  shows "set td \<subseteq> set td'"
  using assms
proof (induction es arbitrary: c td)
  case Nil
  then show ?case by simp
next
  case (Cons x es)
  obtain k1 v where x: "x = (k1, v)" by (cases x)
  obtain cont c1 td1 where v: "New_visit (obs k1) k1 v (c, td) = (cont, c1, td1)"
    by (cases "New_visit (obs k1) k1 v (c, td)")
  have "set td \<subseteq> set td1"
    using New_visit_toDelete [OF v] by auto
  then show ?case
    using Cons.IH [of c1 td1] Cons.prems
    by (cases cont) (auto simp: x v)
qed

lemma ForEach_marks_old:
  assumes "ForEach (\<lambda>key val. New_visit (obs key) key val) es (c, td) = (c', td')"
    and "\<forall>x \<in> set es. \<not> ctxErr (obs (fst x))"
    and "(k, e) \<in> set es" and "KeepTime c > 0"
    and "Since (createdCheckedAt (obs k)) (created e) > KeepTime c"
  shows "k \<in> set td'"
  using assms
proof (induction es arbitrary: c td)
  case Nil
  then show ?case by simp
next
  case (Cons x es)
  obtain k1 v where x: "x = (k1, v)" by (cases x)
  obtain cont c1 td1 where v: "New_visit (obs k1) k1 v (c, td) = (cont, c1, td1)"
    by (cases "New_visit (obs k1) k1 v (c, td)")
  have cont: cont
    using New_visit_continues [OF v] Cons.prems(2) by (simp add: x)
  have rest: "ForEach (\<lambda>key val. New_visit (obs key) key val) es (c1, td1) = (c', td')"
    using Cons.prems(1) cont by (simp add: x v)
  have keep: "KeepTime c1 = KeepTime c"
    using New_visit_fields [OF v] by simp
  show ?case
  proof (cases "(k, e) = x")
    case True
    then have "td1 = td @ [k]"
      using New_visit_old [OF v] Cons.prems x by auto
    then show ?thesis
      using ForEach_toDelete_grows [OF rest] by auto
  next
    case False
    then have "(k, e) \<in> set es" using Cons.prems(3) by simp
    then show ?thesis
      using Cons.IH [OF rest] Cons.prems(2,4,5) keep by simp
  qed
qed

lemma ForEach_keepTime_off:
  assumes "ForEach (\<lambda>key val. New_visit (obs key) key val) es (c, td) = (c', td')"
    and "KeepTime c \<le> 0"
  shows "td' = td"
  using assms
proof (induction es arbitrary: c td)
  case Nil
  then show ?case by simp
next
  case (Cons x es)
  obtain k1 v where x: "x = (k1, v)" by (cases x)
  obtain cont c1 td1 where v: "New_visit (obs k1) k1 v (c, td) = (cont, c1, td1)"
    by (cases "New_visit (obs k1) k1 v (c, td)")
  have td1: "td1 = td"
    using New_visit_toDelete [OF v] Cons.prems(2) by auto
  have keep: "KeepTime c1 \<le> 0"
    using New_visit_fields [OF v] Cons.prems(2) by simp
  show ?case
    using Cons.IH [of c1 td1] Cons.prems(1) td1 keep
    by (cases cont) (simp_all add: x v)
qed

lemma ForEach_keys:
  assumes "ForEach (\<lambda>key val. New_visit (obs key) key val) es (c, td) = (c', td')"
    and "fst ` set es \<subseteq> fst ` set (cacheMap c)"
  shows "map fst (cacheMap c') = map fst (cacheMap c)"
  using assms
proof (induction es arbitrary: c td)
  case Nil
  then show ?case by simp
next
  case (Cons x es)
  obtain k1 v where x: "x = (k1, v)" by (cases x)
  obtain cont c1 td1 where v: "New_visit (obs k1) k1 v (c, td) = (cont, c1, td1)"
    by (cases "New_visit (obs k1) k1 v (c, td)")
  have k1: "k1 \<in> fst ` set (cacheMap c)"
    using Cons.prems(2) by (simp add: x)
  have keys1: "map fst (cacheMap c1) = map fst (cacheMap c)"
    using New_visit_keys [OF v k1] .
  then have "set (map fst (cacheMap c1)) = set (map fst (cacheMap c))" by simp
  then have sub: "fst ` set es \<subseteq> fst ` set (cacheMap c1)"
    using Cons.prems(2) by (simp add: x)
  show ?case
    using Cons.IH [of c1 td1, OF _ sub] Cons.prems(1) keys1
    by (cases cont) (simp_all add: x v)
qed

lemma ForEach_fresh:
  assumes "ForEach (\<lambda>key val. New_visit (obs key) key val) es (c, td) = (c', td')"
    and "distinct (map fst es)" and "(k, e) \<in> set es"
    and "Since (createdCheckedAt (obs k)) (created e) < RefreshTime c"
    and "\<not> (KeepTime c > 0 \<and> Since (createdCheckedAt (obs k)) (created e) > KeepTime c)"
  shows "map_of (cacheMap c') k = map_of (cacheMap c) k
         \<and> filter (\<lambda>x. snd x = k) (calls c') = filter (\<lambda>x. snd x = k) (calls c)
         \<and> (k \<in> set td') = (k \<in> set td)"
  using assms
proof (induction es arbitrary: c td)
  case Nil
  then show ?case by simp
next
  case (Cons x es)
  obtain k1 v where x: "x = (k1, v)" by (cases x)
  obtain cont c1 td1 where v: "New_visit (obs k1) k1 v (c, td) = (cont, c1, td1)"
    by (cases "New_visit (obs k1) k1 v (c, td)")
  have fields: "KeepTime c1 = KeepTime c" "RefreshTime c1 = RefreshTime c"
    using New_visit_fields [OF v] by simp_all
  show ?case
  proof (cases "(k, e) = x")
    case True
    then have kv: "k1 = k" "v = e" using x by simp_all
    have same: "c1 = c \<and> td1 = td"
      using New_visit_fresh [OF v [unfolded kv]] Cons.prems(4,5) by simp
    have notin: "k \<notin> fst ` set es"
      using Cons.prems(2) by (simp add: x kv)
    show ?thesis
    proof (cases cont)
      case True
      then have rest: "ForEach (\<lambda>key val. New_visit (obs key) key val) es (c, td) = (c', td')"
        using Cons.prems(1) same by (simp add: x v)
      show ?thesis using ForEach_other [OF rest notin] .
    next
      case False
      then show ?thesis using Cons.prems(1) same by (simp add: x v)
    qed
  next
    case False
    then have mem: "(k, e) \<in> set es" using Cons.prems(3) by simp
    then have ne: "k \<noteq> k1"
      using Cons.prems(2) by (force simp: x)
    have td1: "(k \<in> set td1) = (k \<in> set td)"
      using New_visit_toDelete [OF v] ne by auto
    have dist: "distinct (map fst es)" using Cons.prems(2) by simp
    show ?thesis
    proof (cases cont)
      case True
      then have rest: "ForEach (\<lambda>key val. New_visit (obs key) key val) es (c1, td1) = (c', td')"
        using Cons.prems(1) by (simp add: x v)
      show ?thesis
        using Cons.IH [OF rest dist mem] Cons.prems(4,5) fields New_visit_other [OF v ne] td1
        by simp
    next
      case False
      then show ?thesis
        using Cons.prems(1) New_visit_other [OF v ne] td1 by (simp add: x v)
    qed
  qed
qed

text \<open>
  C7. With a positive keep time, an entry whose age, at the reading of the clock taken
  when the loop visits it, exceeds the keep time is absent from the map after the
  cycle: either the walk reached it and the batch delete removed it, or the lifecycle
  context was cancelled, and then the loop is left and the map is cleared (a context,
  once cancelled, stays so: if a visit found it cancelled, so does the loop
  condition). With a keep time of zero a sweep removes no key.
\<close>

theorem New_cycle_keepTime:
  "(KeepTime c > 0 \<and> (k, e) \<in> set (cacheMap c)
      \<and> Since (createdCheckedAt (obs k)) (created e) > KeepTime c
      \<and> ((\<exists>x \<in> set (cacheMap c). ctxErr (obs (fst x))) \<longrightarrow> errAtLoop)
     \<longrightarrow> map_of (cacheMap (fst (New_cycle errAfterSleep obs errAtLoop c))) k = None)
   \<and> (KeepTime c = 0 \<longrightarrow> map fst (cacheMap (New_sweep obs c)) = map fst (cacheMap c))"
proof (intro conjI impI)
  assume a: "KeepTime c > 0 \<and> (k, e) \<in> set (cacheMap c)
      \<and> Since (createdCheckedAt (obs k)) (created e) > KeepTime c
      \<and> ((\<exists>x \<in> set (cacheMap c). ctxErr (obs (fst x))) \<longrightarrow> errAtLoop)"
  obtain c' td' where fe:
    "ForEach (\<lambda>key val. New_visit (obs key) key val) (cacheMap c) (c, []) = (c', td')"
    by (cases "ForEach (\<lambda>key val. New_visit (obs key) key val) (cacheMap c) (c, [])")
  show "map_of (cacheMap (fst (New_cycle errAfterSleep obs errAtLoop c))) k = None"
  proof (cases "errAfterSleep \<or> errAtLoop")
    case True
    then show ?thesis by (auto simp: New_cycle_def Clear_def Let_def)
  next
    case False
    then have "\<forall>x \<in> set (cacheMap c). \<not> ctxErr (obs (fst x))" using a by blast
    then have "k \<in> set td'"
      using ForEach_marks_old [OF fe] a by blast
    then show ?thesis
      using False by (simp add: New_cycle_def New_sweep_def fe map_of_Del)
  qed
next
  assume z: "KeepTime c = 0"
  obtain c' td' where fe:
    "ForEach (\<lambda>key val. New_visit (obs key) key val) (cacheMap c) (c, []) = (c', td')"
    by (cases "ForEach (\<lambda>key val. New_visit (obs key) key val) (cacheMap c) (c, [])")
  have "td' = []" using ForEach_keepTime_off [OF fe] z by simp
  moreover have "map fst (cacheMap c') = map fst (cacheMap c)"
    using ForEach_keys [OF fe] by simp
  ultimately show "map fst (cacheMap (New_sweep obs c)) = map fst (cacheMap c)"
    by (simp add: New_sweep_def fe Del_def)
qed

text \<open>
  C7, instances: with a keep time of two seconds the entry created at 100 is gone
  after a cycle at 2.6 s; with a keep time of zero it is still there.
\<close>

lemma shortKeep_sweep:
  "New_sweep (\<lambda>k. visitAt 2600000000) shortKeepCache = shortKeepCache\<lparr>cacheMap := []\<rparr>"
  by (simp add: New_sweep_def New_visit_def shortKeepCache_def hotCache_def hotEntry_def
      testCache_def New_def usedEntry_def visitAt_def Del_def)

theorem New_cycle_keepTime_witness:
  "KeepTime shortKeepCache > 0
   \<and> (''one'', hotEntry) \<in> set (cacheMap shortKeepCache)
   \<and> Since (createdCheckedAt (visitAt 2600000000)) (created hotEntry) > KeepTime shortKeepCache
   \<and> \<not> (\<exists>x \<in> set (cacheMap shortKeepCache). ctxErr (visitAt 2600000000))
   \<and> map_of (cacheMap (fst (New_cycle False (\<lambda>k. visitAt 2600000000) False shortKeepCache))) ''one'' = None
   \<and> KeepTime noKeepCache = 0
   \<and> map fst (cacheMap noKeepCache) = [''one'']
   \<and> map fst (cacheMap (New_sweep (\<lambda>k. visitAt 2600000000) noKeepCache)) = [''one'']"
proof -
  have h1: "KeepTime shortKeepCache > 0"
    by (simp add: shortKeepCache_def)
  have h2: "(''one'', hotEntry) \<in> set (cacheMap shortKeepCache)"
    by (simp add: shortKeepCache_def hotCache_def)
  have h3: "Since (createdCheckedAt (visitAt 2600000000)) (created hotEntry) > KeepTime shortKeepCache"
    by (simp add: shortKeepCache_def hotEntry_def usedEntry_def visitAt_def)
  have h4: "\<not> (\<exists>x \<in> set (cacheMap shortKeepCache). ctxErr (visitAt 2600000000))"
    by (simp add: visitAt_def)
  have h5: "KeepTime noKeepCache = 0"
    by (simp add: noKeepCache_def)
  have h6: "map fst (cacheMap noKeepCache) = [''one'']"
    by (simp add: noKeepCache_def hotCache_def)
  have a: "map_of (cacheMap (fst (New_cycle False (\<lambda>k. visitAt 2600000000) False shortKeepCache))) ''one'' = None"
    using New_cycle_keepTime [of shortKeepCache "''one''" hotEntry "\<lambda>k. visitAt 2600000000" False False]
      h1 h2 h3 h4 by blast
  have b: "map fst (cacheMap (New_sweep (\<lambda>k. visitAt 2600000000) noKeepCache)) = [''one'']"
    using New_cycle_keepTime [of noKeepCache "''one''" hotEntry "\<lambda>k. visitAt 2600000000" False False]
      h5 h6 by simp
  show ?thesis using h1 h2 h3 h4 h5 h6 a b by blast
qed

text \<open>
  C8 (as the code has it). An entry that is younger than the refresh time when the
  loop visits it, and that is not past a positive keep time, is in the map unchanged
  after the sweep, and the sweep made no producer call for its key.
\<close>

theorem New_sweep_leaves_fresh:
  assumes "distinct (map fst (cacheMap c))" and "(k, e) \<in> set (cacheMap c)"
    and "Since (createdCheckedAt (obs k)) (created e) < RefreshTime c"
    and "\<not> (KeepTime c > 0 \<and> Since (createdCheckedAt (obs k)) (created e) > KeepTime c)"
  shows "map_of (cacheMap (New_sweep obs c)) k = Some e
       \<and> filter (\<lambda>x. snd x = k) (calls (New_sweep obs c)) = filter (\<lambda>x. snd x = k) (calls c)"
proof -
  obtain c' td' where fe:
    "ForEach (\<lambda>key val. New_visit (obs key) key val) (cacheMap c) (c, []) = (c', td')"
    by (cases "ForEach (\<lambda>key val. New_visit (obs key) key val) (cacheMap c) (c, [])")
  have "map_of (cacheMap c) k = Some e"
    using assms(1,2) by simp
  then show ?thesis
    using ForEach_fresh [OF fe assms] by (simp add: New_sweep_def fe map_of_Del)
qed

text \<open>C8, an instance: the entry of the test cache, swept at 2.6 s.\<close>

theorem New_sweep_leaves_fresh_witness:
  "distinct (map fst (cacheMap hotCache))
   \<and> (''one'', hotEntry) \<in> set (cacheMap hotCache)
   \<and> Since (createdCheckedAt (visitAt 2600000000)) (created hotEntry) < RefreshTime hotCache
   \<and> \<not> (KeepTime hotCache > 0
        \<and> Since (createdCheckedAt (visitAt 2600000000)) (created hotEntry) > KeepTime hotCache)
   \<and> map_of (cacheMap (New_sweep (\<lambda>k. visitAt 2600000000) hotCache)) ''one'' = Some hotEntry
   \<and> filter (\<lambda>x. snd x = ''one'') (calls (New_sweep (\<lambda>k. visitAt 2600000000) hotCache)) = []"
proof -
  have h1: "distinct (map fst (cacheMap hotCache))"
    by (simp add: hotCache_def)
  have h2: "(''one'', hotEntry) \<in> set (cacheMap hotCache)"
    by (simp add: hotCache_def)
  have h3: "Since (createdCheckedAt (visitAt 2600000000)) (created hotEntry) < RefreshTime hotCache"
    by (simp add: hotCache_def hotEntry_def testCache_def New_def usedEntry_def visitAt_def)
  have h4: "\<not> (KeepTime hotCache > 0
        \<and> Since (createdCheckedAt (visitAt 2600000000)) (created hotEntry) > KeepTime hotCache)"
    by (simp add: hotCache_def hotEntry_def testCache_def New_def usedEntry_def visitAt_def)
  have "calls hotCache = []"
    by (simp add: hotCache_def testCache_def New_def)
  then show ?thesis
    using New_sweep_leaves_fresh [OF h1 h2 h3 h4] h1 h2 h3 h4 by simp
qed

text \<open>
  C8 as the specification words it has no fresh entry ever deleted. The test of the
  keep time comes first: with a keep time of two seconds and a refresh time of three,
  the entry is 2.6 s old, younger than the refresh time, and the sweep deletes it.
\<close>

theorem New_sweep_fresh_counterexample:
  "map_of (cacheMap shortKeepCache) ''one'' = Some hotEntry
   \<and> Since (createdCheckedAt (visitAt 2600000000)) (created hotEntry) < RefreshTime shortKeepCache
   \<and> map_of (cacheMap (New_sweep (\<lambda>k. visitAt 2600000000) shortKeepCache)) ''one'' = None"
  by (simp add: shortKeep_sweep)
    (simp add: shortKeepCache_def hotCache_def hotEntry_def testCache_def New_def usedEntry_def
      visitAt_def)

section \<open>Concurrent Get calls\<close>

text \<open>
  The map holds pointers. \<open>GetOrCompute\<close> hands a call the pointer stored for its key,
  and the call reads and writes the element through that pointer, whatever happens to
  the entry of the key afterwards; the callback of the maintenance loop writes through
  the pointer \<open>ForEach\<close> hands it. Here the elements live in a list, the address of an
  element is its index in the list, and the map sends a key to an address. \<open>Del\<close>
  removes the entry of a key from the map and leaves the element to the calls that
  hold its address.

  A call of \<open>Get\<close> is known by its key, its context and the place it has reached:
  before \<open>GetOrCompute\<close>; after it with the address of an entry that was already there,
  at the \<open>select\<close>; after it with the address of the element it inserted, while its
  invocation of the producer runs, holding the number of that invocation; after the
  producer has returned and the stores are done, holding the values of its \<open>return\<close>
  statement, before the deferred \<open>close\<close>; returned, with its two results.
\<close>

datatype 'v place = Start | Loaded nat | Producing nat nat | Closing nat 'v bool | Finished 'v bool

type_synonym ('k, 'v) call = "'k \<times> context \<times> 'v place"

text \<open>
  \<open>base\<close> holds the fields of the cache other than the map, and the log of invocations;
  its own \<open>cacheMap\<close> is not used. \<open>view\<close> is the cache as a call that starts now finds
  it: each key with the element at its address.
\<close>

record ('k, 'v) pool =
  heap :: "'v element list"
  slots :: "('k \<times> nat) list"
  base :: "('k, 'v) Cache"
  callers :: "('k, 'v) call list"

definition view :: "('k, 'v) pool \<Rightarrow> ('k, 'v) Cache" where
  "view p = (base p)\<lparr>cacheMap := map (\<lambda>(k, a). (k, heap p ! a)) (slots p)\<rparr>"

text \<open>
  The branch of \<open>Get\<close> for an entry that was already in the map, on the element the
  call holds: the element as the branch leaves it, and what the call does.
\<close>

definition Get_wait :: "'v element \<Rightarrow> getObs \<Rightarrow> 'v element \<times> 'v outcome" where
  "Get_wait val ob =
     (let waited = (case ready val of
                      None \<Rightarrow> Some GateReady
                    | Some ch \<Rightarrow> select2 (ctxDone ob) (ch = Closed) (pickCtx ob))
      in case waited of
           None \<Rightarrow> (val, Blocked)
         | Some CtxDone \<Rightarrow> (val, Returned (data val) False)
         | Some GateReady \<Rightarrow>
             if IsZero (lastUsed val) then (val, Returned (data val) False)
             else (val\<lparr>lastUsed := usedAt ob\<rparr>, Returned (data val) True))"

text \<open>
  One step of the call at index \<open>i\<close>. Each step is one access to what the calls share.
  At the start, \<open>GetOrCompute\<close> on the map of addresses, whose factory allocates the new
  element at the end of the list; the call that inserted goes on to invoke the
  producer, which is logged with the number of invocations made before. At the
  \<open>select\<close>, the branch for an existing entry, taken when the \<open>select\<close> can proceed; a call
  whose \<open>select\<close> cannot proceed stays where it is. While the producer runs, its return:
  the stores into the element on success, and the values of the \<open>return\<close> statement.
  Then the deferred \<open>close\<close>.
\<close>

definition Get_step :: "'v \<Rightarrow> getObs \<Rightarrow> nat \<Rightarrow> ('k, 'v) pool \<Rightarrow> ('k, 'v) pool" where
  "Get_step z ob i p =
     (case callers p ! i of (key, cx, at) \<Rightarrow>
        (case at of
           Start \<Rightarrow>
             (case GetOrCompute (slots p) key (\<lambda>_. length (heap p)) of
                (m, a, loaded) \<Rightarrow>
                  if loaded then p\<lparr>callers := (callers p)[i := (key, cx, Loaded a)]\<rparr>
                  else p\<lparr>heap := heap p @ [newElement z (insertedAt ob)], slots := m,
                         base := (base p)\<lparr>calls := calls (base p) @ [(cx, key)]\<rparr>,
                         callers := (callers p)[i := (key, cx, Producing a (length (calls (base p))))]\<rparr>)
         | Loaded a \<Rightarrow>
             (case Get_wait (heap p ! a) ob of
                (val, Blocked) \<Rightarrow> p
              | (val, Returned v found) \<Rightarrow>
                  p\<lparr>heap := (heap p)[a := val],
                    callers := (callers p)[i := (key, cx, Finished v found)]\<rparr>)
         | Producing a n \<Rightarrow>
             (case refreshFunc (base p) n cx key of
                (d, ok) \<Rightarrow>
                  let val = (if ok then (heap p ! a)\<lparr>data := d, lastUsed := usedAt ob\<rparr>
                             else heap p ! a)
                  in p\<lparr>heap := (heap p)[a := val],
                       callers := (callers p)[i := (key, cx, Closing a (data val) ok)]\<rparr>)
         | Closing a v ok \<Rightarrow>
             p\<lparr>heap := (heap p)[a := (heap p ! a)\<lparr>ready := Some Closed\<rparr>],
               callers := (callers p)[i := (key, cx, Finished v ok)]\<rparr>
         | Finished v found \<Rightarrow> p))"

text \<open>
  One walk of the maintenance loop with its batch delete, \<open>New_sweep\<close>, on the cache as
  it is: the elements the walk refreshed are written at their addresses, the entries
  it deleted leave the map, and the invocations it made are logged.
\<close>

definition write_back :: "('k \<times> 'v element) list \<Rightarrow> 'k \<times> nat \<Rightarrow> 'v element list \<Rightarrow> 'v element list" where
  "write_back m ka h =
     (case ka of (k, a) \<Rightarrow> (case map_of m k of Some val \<Rightarrow> h[a := val] | None \<Rightarrow> h))"

definition Sweep_step :: "('k \<Rightarrow> visitObs) \<Rightarrow> ('k, 'v) pool \<Rightarrow> ('k, 'v) pool" where
  "Sweep_step obs p =
     (let c = New_sweep obs (view p)
      in p\<lparr>heap := fold (write_back (cacheMap c)) (slots p) (heap p),
           slots := filter (\<lambda>ka. map_of (cacheMap c) (fst ka) \<noteq> None) (slots p),
           base := (base p)\<lparr>calls := calls c\<rparr>\<rparr>)"

text \<open>
  A schedule is a list of events: a call takes a step, with what it observes in it,
  or the maintenance loop makes a walk, with what it observes at each key. \<open>run\<close> plays
  a schedule. In these schedules a step or a walk is over before the next begins;
  they are schedules of the program, which has others, where calls of the map
  overlap. Nothing below is about those.
\<close>

datatype 'k event = Step nat getObs | Sweep "'k \<Rightarrow> visitObs"

definition pool_step :: "'v \<Rightarrow> ('k, 'v) pool \<Rightarrow> 'k event \<Rightarrow> ('k, 'v) pool" where
  "pool_step z p ev =
     (case ev of
        Step i ob \<Rightarrow> if i < length (callers p) then Get_step z ob i p else p
      | Sweep obs \<Rightarrow> Sweep_step obs p)"

definition run :: "'v \<Rightarrow> 'k event list \<Rightarrow> ('k, 'v) pool \<Rightarrow> ('k, 'v) pool" where
  "run z sched p = foldl (pool_step z) p sched"

text \<open>
  The addresses in use are allocated: the map has one entry for a key and one key for
  an address, and every address in the map or held by a call is an index of the list.
\<close>

fun held :: "'v place \<Rightarrow> nat option" where
  "held Start = None"
| "held (Loaded a) = Some a"
| "held (Producing a n) = Some a"
| "held (Closing a v ok) = Some a"
| "held (Finished v found) = None"

definition pool_wf :: "('k, 'v) pool \<Rightarrow> bool" where
  "pool_wf p \<longleftrightarrow>
     distinct (map fst (slots p)) \<and> distinct (map snd (slots p))
     \<and> (\<forall>a \<in> snd ` set (slots p). a < length (heap p))
     \<and> (\<forall>cl \<in> set (callers p). \<forall>a. held (snd (snd cl)) = Some a \<longrightarrow> a < length (heap p))"

text \<open>
  A cache that refreshes after one second and keeps entries for two, whose producer
  returns the length of the key plus a thousand times the number of invocations made
  before; three calls for one key; and a schedule, in four parts. The first call
  starts at 100 ns, the third call starts, and the maintenance loop makes a walk at
  1.5 s. The loop makes a walk at 2.25 s. The second call starts at 2.3 s. The
  producer returns to the first call at 2.5 s and to the second at 2.6 s, the first
  call closes its channel and returns, the second does, and the third call gets
  through its \<open>select\<close> at 2.9 s.
\<close>

definition stampProducer :: "nat \<Rightarrow> context \<Rightarrow> string \<Rightarrow> int \<times> bool" where
  "stampProducer n cx s = (int (length s) + 1000 * int n, True)"

definition getAt :: "Time \<Rightarrow> getObs" where
  "getAt t = \<lparr>ctxDone = False, pickCtx = False, insertedAt = t, usedAt = t\<rparr>"

definition racePool :: "(string, int) pool" where
  "racePool = \<lparr>heap = [], slots = [], base = New 1000000000 2000000000 stampProducer,
               callers = [(''one'', Background, Start), (''one'', Background, Start),
                          (''one'', Background, Start)]\<rparr>"

definition raceStart :: "string event list" where
  "raceStart = [Step 0 (getAt 100), Step 2 (getAt 200), Sweep (\<lambda>k. visitAt 1500000000)]"

definition raceEvict :: "string event list" where
  "raceEvict = raceStart @ [Sweep (\<lambda>k. visitAt 2250000000)]"

definition raceSecond :: "string event list" where
  "raceSecond = raceEvict @ [Step 1 (getAt 2300000000)]"

definition raceSchedule :: "string event list" where
  "raceSchedule = raceSecond @ [Step 0 (getAt 2500000000), Step 1 (getAt 2600000000),
       Step 0 (getAt 2700000000), Step 1 (getAt 2800000000), Step 2 (getAt 2900000000)]"

subsection \<open>Addresses\<close>

lemma deref_map_of:
  "map_of (map (\<lambda>(k, a). (k, h ! a)) sl) key = map_option ((!) h) (map_of sl key)"
  by (induction sl) auto

lemma deref_append:
  "\<forall>a \<in> snd ` set sl. a < length h \<Longrightarrow>
     map (\<lambda>(k, a). (k, (h @ [e]) ! a)) sl = map (\<lambda>(k, a). (k, h ! a)) sl"
  by (induction sl) (auto simp: nth_append)

lemma deref_update_other:
  "a \<notin> snd ` set sl \<Longrightarrow>
     map (\<lambda>(k, a'). (k, h[a := v] ! a')) sl = map (\<lambda>(k, a'). (k, h ! a')) sl"
  by (induction sl) auto

lemma deref_update:
  assumes "distinct (map fst sl)" and "distinct (map snd sl)"
    and "map_of sl key = Some a" and "a < length h"
  shows "map (\<lambda>(k, a'). (k, h[a := v] ! a')) sl
           = AList.update key v (map (\<lambda>(k, a'). (k, h ! a')) sl)"
  using assms
proof (induction sl)
  case Nil
  then show ?case by simp
next
  case (Cons x sl)
  obtain k a' where x: "x = (k, a')" by (cases x)
  show ?case
  proof (cases "k = key")
    case True
    then have a: "a' = a" using Cons.prems(3) x by simp
    have "a \<notin> snd ` set sl" using Cons.prems(2) x a by auto
    then show ?thesis
      using True x a Cons.prems(4) deref_update_other [of a sl h v] by simp
  next
    case False
    then have m: "map_of sl key = Some a" using Cons.prems(3) x by simp
    then have "(key, a) \<in> set sl" by (rule map_of_SomeD)
    then have "a \<in> snd ` set sl" by force
    then have "a' \<noteq> a" using Cons.prems(2) x by auto
    then show ?thesis
      using False x m Cons.prems Cons.IH by simp
  qed
qed

lemma view_fields:
  "cacheMap (view p) = map (\<lambda>(k, a). (k, heap p ! a)) (slots p)"
  "calls (view p) = calls (base p)" "refreshFunc (view p) = refreshFunc (base p)"
  "KeepTime (view p) = KeepTime (base p)" "RefreshTime (view p) = RefreshTime (base p)"
  "ctx (view p) = ctx (base p)"
  by (simp_all add: view_def)

lemma callers_update_held:
  assumes "\<forall>cl \<in> set cs. \<forall>a. held (snd (snd cl)) = Some a \<longrightarrow> a < n"
    and "\<forall>a. held at = Some a \<longrightarrow> a < n"
  shows "\<forall>cl \<in> set (cs[i := (key, cx, at)]). \<forall>a. held (snd (snd cl)) = Some a \<longrightarrow> a < n"
proof
  fix cl assume "cl \<in> set (cs[i := (key, cx, at)])"
  then have "cl = (key, cx, at) \<or> cl \<in> set cs"
    using set_update_subset_insert [of cs i "(key, cx, at)"] by auto
  then show "\<forall>a. held (snd (snd cl)) = Some a \<longrightarrow> a < n"
    using assms by auto
qed

lemma held_nth:
  assumes "pool_wf p" and "i < length (callers p)" and "callers p ! i = (key, cx, at)"
    and "held at = Some a"
  shows "a < length (heap p)"
proof -
  have "(key, cx, at) \<in> set (callers p)"
    using assms(2,3) nth_mem [of i "callers p"] by simp
  then show ?thesis
    using assms(1,4) by (auto simp: pool_wf_def)
qed

lemma pool_wf_Get_step:
  assumes "pool_wf p" and "i < length (callers p)"
  shows "pool_wf (Get_step z ob i p)"
proof -
  obtain key cx at where c: "callers p ! i = (key, cx, at)"
    by (cases "callers p ! i")
  have old: "\<forall>cl \<in> set (callers p). \<forall>a. held (snd (snd cl)) = Some a \<longrightarrow> a < length (heap p)"
    using assms(1) by (simp add: pool_wf_def)
  have grown: "\<forall>cl \<in> set (callers p). \<forall>a. held (snd (snd cl)) = Some a \<longrightarrow> a < Suc (length (heap p))"
    using old by auto
  show ?thesis
  proof (cases at)
    case Start
    show ?thesis
    proof (cases "map_of (slots p) key")
      case None
      have k: "key \<notin> fst ` set (slots p)"
        using None by (simp add: map_of_eq_None_iff)
      have n: "length (heap p) \<notin> snd ` set (slots p)"
        using assms(1) by (auto simp: pool_wf_def)
      have "\<forall>cl \<in> set ((callers p)[i := (key, cx, Producing (length (heap p)) (length (calls (base p))))]).
              \<forall>a. held (snd (snd cl)) = Some a \<longrightarrow> a < Suc (length (heap p))"
        by (rule callers_update_held [OF grown]) simp
      then show ?thesis
        using assms(1) c Start None k n
        by (auto simp: Get_step_def GetOrCompute_absent pool_wf_def less_Suc_eq)
    next
      case (Some a)
      have "(key, a) \<in> set (slots p)" using Some by (rule map_of_SomeD)
      then have "a \<in> snd ` set (slots p)" by force
      then have a: "a < length (heap p)" using assms(1) by (auto simp: pool_wf_def)
      have "\<forall>cl \<in> set ((callers p)[i := (key, cx, Loaded a)]).
              \<forall>a. held (snd (snd cl)) = Some a \<longrightarrow> a < length (heap p)"
        by (rule callers_update_held [OF old]) (simp add: a)
      then show ?thesis
        using assms(1) c Start Some
        by (simp add: Get_step_def GetOrCompute_present pool_wf_def)
    qed
  next
    case (Loaded a)
    obtain val r where w: "Get_wait (heap p ! a) ob = (val, r)"
      by (cases "Get_wait (heap p ! a) ob")
    show ?thesis
    proof (cases r)
      case Blocked
      then show ?thesis
        using assms(1) c Loaded w by (simp add: Get_step_def)
    next
      case (Returned v found)
      have "\<forall>cl \<in> set ((callers p)[i := (key, cx, Finished v found)]).
              \<forall>a. held (snd (snd cl)) = Some a \<longrightarrow> a < length (heap p)"
        by (rule callers_update_held [OF old]) simp
      then show ?thesis
        using assms(1) c Loaded w Returned by (simp add: Get_step_def pool_wf_def)
    qed
  next
    case (Producing a n)
    obtain d ok where r: "refreshFunc (base p) n cx key = (d, ok)"
      by (cases "refreshFunc (base p) n cx key")
    have a: "a < length (heap p)"
      using held_nth [OF assms c] Producing by simp
    have "\<forall>cl \<in> set ((callers p)[i := (key, cx, Closing a v ok)]).
              \<forall>a. held (snd (snd cl)) = Some a \<longrightarrow> a < length (heap p)" for v
      by (rule callers_update_held [OF old]) (simp add: a)
    then show ?thesis
      using assms(1) c Producing r by (simp add: Get_step_def pool_wf_def Let_def)
  next
    case (Closing a v ok)
    have "\<forall>cl \<in> set ((callers p)[i := (key, cx, Finished v ok)]).
              \<forall>a. held (snd (snd cl)) = Some a \<longrightarrow> a < length (heap p)"
      by (rule callers_update_held [OF old]) simp
    then show ?thesis
      using assms(1) c Closing by (simp add: Get_step_def pool_wf_def)
  next
    case (Finished v found)
    then show ?thesis
      using assms(1) c by (simp add: Get_step_def)
  qed
qed

lemma write_back_length: "length (fold (write_back m) sl h) = length h"
  by (induction sl arbitrary: h) (auto simp: write_back_def split: option.splits)

lemma pool_wf_Sweep_step:
  assumes "pool_wf p"
  shows "pool_wf (Sweep_step obs p)"
  using assms
  by (auto simp: pool_wf_def Sweep_step_def Let_def write_back_length distinct_map_filter)

lemma pool_wf_step: "pool_wf p \<Longrightarrow> pool_wf (pool_step z p ev)"
  by (cases ev) (simp_all add: pool_step_def pool_wf_Get_step pool_wf_Sweep_step)

lemma pool_wf_run: "pool_wf p \<Longrightarrow> pool_wf (run z sched p)"
  unfolding run_def
  by (induction sched arbitrary: p) (simp_all add: pool_wf_step)

subsection \<open>A call running alone, and the walk\<close>

text \<open>
  The steps of one call, taken with no other event between them, are \<open>Cache_Get\<close> on the
  cache as the call found it: three steps when the key was absent, two when its entry
  was there (the second is the wait, which may block). A walk of the pool is
  \<open>New_sweep\<close> on the cache as the walk found it.
\<close>

lemma Get_inserted_eq:
  assumes "refreshFunc c (length (calls c)) cx key = (d, ok)"
  shows "Get_inserted c cx key val ob =
     (c\<lparr>cacheMap := AList.update key
           ((if ok then val\<lparr>data := d, lastUsed := usedAt ob\<rparr> else val)\<lparr>ready := Some Closed\<rparr>)
           (cacheMap c),
        calls := calls c @ [(cx, key)]\<rparr>,
      Returned (if ok then d else data val) ok)"
  using assms
  by (cases ok) (simp_all add: Get_inserted_def Get_produce_def Get_close_def Let_def)

lemma update_snoc:
  "key \<notin> fst ` set m \<Longrightarrow> AList.update key v (m @ [(key, e)]) = m @ [(key, v)]"
  by (induction m) auto

lemma Get_loaded_wait:
  "Get_loaded c key val ob =
     (if snd (Get_wait val ob) = Returned (data val) True
      then c\<lparr>cacheMap := AList.update key (fst (Get_wait val ob)) (cacheMap c)\<rparr> else c,
      snd (Get_wait val ob))"
  by (simp add: Get_loaded_def Get_wait_def Let_def split: option.splits selected.splits)

lemma Get_wait_unchanged:
  "snd (Get_wait val ob) \<noteq> Returned (data val) True \<Longrightarrow> fst (Get_wait val ob) = val"
  by (simp add: Get_wait_def Let_def split: option.splits selected.splits if_splits)

lemma pool_Get_absent:
  assumes "pool_wf p" and "i < length (callers p)" and "callers p ! i = (key, cx, Start)"
    and "map_of (slots p) key = None"
  shows "view (run z [Step i ob, Step i ob, Step i ob] p) = fst (Cache_Get z (view p) cx key ob)
       \<and> (\<exists>v ok. snd (Cache_Get z (view p) cx key ob) = Returned v ok
            \<and> callers (run z [Step i ob, Step i ob, Step i ob] p)
                = (callers p)[i := (key, cx, Finished v ok)])"
proof -
  let ?n = "length (heap p)"
  let ?m = "length (calls (base p))"
  let ?e = "newElement z (insertedAt ob)"
  obtain d ok where r: "refreshFunc (base p) ?m cx key = (d, ok)"
    by (cases "refreshFunc (base p) ?m cx key")
  let ?val = "if ok then ?e\<lparr>data := d, lastUsed := usedAt ob\<rparr> else ?e"
  let ?log = "(base p)\<lparr>calls := calls (base p) @ [(cx, key)]\<rparr>"
  let ?p1 = "p\<lparr>heap := heap p @ [?e], slots := slots p @ [(key, ?n)], base := ?log,
               callers := (callers p)[i := (key, cx, Producing ?n ?m)]\<rparr>"
  let ?p2 = "p\<lparr>heap := heap p @ [?val], slots := slots p @ [(key, ?n)], base := ?log,
               callers := (callers p)[i := (key, cx, Closing ?n (data ?val) ok)]\<rparr>"
  let ?p3 = "p\<lparr>heap := heap p @ [?val\<lparr>ready := Some Closed\<rparr>], slots := slots p @ [(key, ?n)],
               base := ?log, callers := (callers p)[i := (key, cx, Finished (data ?val) ok)]\<rparr>"
  have s1: "pool_step z p (Step i ob) = ?p1"
    using assms(2,3,4) by (simp add: pool_step_def Get_step_def GetOrCompute_absent)
  have s2: "pool_step z ?p1 (Step i ob) = ?p2"
    using assms(2) r by (simp add: pool_step_def Get_step_def Let_def)
  have s3: "pool_step z ?p2 (Step i ob) = ?p3"
    using assms(2) by (simp add: pool_step_def Get_step_def)
  have run: "run z [Step i ob, Step i ob, Step i ob] p = ?p3"
    by (simp add: run_def s1 s2 s3)
  let ?cm = "map (\<lambda>(k, a). (k, heap p ! a)) (slots p)"
  have inrange: "\<forall>a \<in> snd ` set (slots p). a < length (heap p)"
    using assms(1) by (simp add: pool_wf_def)
  have v3: "view ?p3 = (base p)\<lparr>cacheMap := ?cm @ [(key, ?val\<lparr>ready := Some Closed\<rparr>)],
                                calls := calls (base p) @ [(cx, key)]\<rparr>"
    using deref_append [OF inrange, of "?val\<lparr>ready := Some Closed\<rparr>"]
    by (simp add: view_def)
  have absent: "map_of (cacheMap (view p)) key = None"
    using assms(4) by (simp add: view_fields deref_map_of)
  have notin: "key \<notin> fst ` set ?cm"
    using absent by (simp add: view_fields map_of_eq_None_iff)
  have r': "refreshFunc ((view p)\<lparr>cacheMap := ?cm @ [(key, ?e)]\<rparr>)
              (length (calls ((view p)\<lparr>cacheMap := ?cm @ [(key, ?e)]\<rparr>))) cx key = (d, ok)"
    using r by (simp add: view_def)
  have g: "Cache_Get z (view p) cx key ob
     = ((base p)\<lparr>cacheMap := ?cm @ [(key, ?val\<lparr>ready := Some Closed\<rparr>)],
                  calls := calls (base p) @ [(cx, key)]\<rparr>,
        Returned (if ok then d else data ?e) ok)"
    using absent notin
    by (simp add: Cache_Get_def GetOrCompute_absent view_fields Get_inserted_eq [OF r']
        update_snoc)
  have "data ?val = (if ok then d else data ?e)" by simp
  then show ?thesis
    using run v3 g by simp
qed

lemma pool_Get_present:
  assumes "pool_wf p" and "i < length (callers p)" and "callers p ! i = (key, cx, Start)"
    and "map_of (slots p) key = Some a"
  shows "view (run z [Step i ob, Step i ob] p) = fst (Cache_Get z (view p) cx key ob)
       \<and> callers (run z [Step i ob, Step i ob] p)
           = (callers p)[i := (key, cx, case snd (Cache_Get z (view p) cx key ob) of
                                          Blocked \<Rightarrow> Loaded a
                                        | Returned v found \<Rightarrow> Finished v found)]"
proof -
  let ?val = "heap p ! a"
  let ?p1 = "p\<lparr>callers := (callers p)[i := (key, cx, Loaded a)]\<rparr>"
  have s1: "pool_step z p (Step i ob) = ?p1"
    using assms(2,3,4) by (simp add: pool_step_def Get_step_def GetOrCompute_present)
  have "(key, a) \<in> set (slots p)" using assms(4) by (rule map_of_SomeD)
  then have "a \<in> snd ` set (slots p)" by force
  then have a: "a < length (heap p)" using assms(1) by (auto simp: pool_wf_def)
  have d: "distinct (map fst (slots p))" "distinct (map snd (slots p))"
    using assms(1) by (simp_all add: pool_wf_def)
  have present: "map_of (cacheMap (view p)) key = Some ?val"
    using assms(4) by (simp add: view_fields deref_map_of)
  have g: "Cache_Get z (view p) cx key ob = Get_loaded (view p) key ?val ob"
    using present by (rule Cache_Get_loaded)
  obtain val r where w: "Get_wait ?val ob = (val, r)"
    by (cases "Get_wait ?val ob")
  have out: "snd (Cache_Get z (view p) cx key ob) = r"
    using w by (simp add: g Get_loaded_wait)
  have st: "fst (Cache_Get z (view p) cx key ob)
              = (if r = Returned (data ?val) True
                 then (view p)\<lparr>cacheMap := AList.update key val (cacheMap (view p))\<rparr>
                 else view p)"
    using w by (simp add: g Get_loaded_wait)
  show ?thesis
  proof (cases r)
    case Blocked
    have "pool_step z ?p1 (Step i ob) = ?p1"
      using assms(2) w Blocked by (simp add: pool_step_def Get_step_def)
    then have run: "run z [Step i ob, Step i ob] p = ?p1"
      by (simp add: run_def s1)
    have "view ?p1 = view p"
      by (simp add: view_def)
    then show ?thesis
      using Blocked by (simp add: run out st)
  next
    case (Returned v found)
    let ?p2 = "p\<lparr>heap := (heap p)[a := val],
                 callers := (callers p)[i := (key, cx, Finished v found)]\<rparr>"
    have "pool_step z ?p1 (Step i ob) = ?p2"
      using assms(2) w Returned by (simp add: pool_step_def Get_step_def)
    then have run: "run z [Step i ob, Step i ob] p = ?p2"
      by (simp add: run_def s1)
    have v2: "view ?p2 = (view p)\<lparr>cacheMap := AList.update key val (cacheMap (view p))\<rparr>"
      using deref_update [OF d assms(4) a, of val] by (simp add: view_def)
    have same: "(view p)\<lparr>cacheMap := AList.update key val (cacheMap (view p))\<rparr> = view p"
      if "r \<noteq> Returned (data ?val) True"
    proof -
      have "val = ?val"
        using Get_wait_unchanged [of ?val ob] w that by simp
      then show ?thesis
        using present by (simp add: AList.update_triv)
    qed
    show ?thesis
      using Returned same by (simp add: run out st v2)
  qed
qed

lemma ForEach_settings:
  assumes "ForEach (\<lambda>key val. New_visit (obs key) key val) es (c, td) = (c', td')"
  shows "KeepTime c' = KeepTime c \<and> RefreshTime c' = RefreshTime c \<and> ctx c' = ctx c
         \<and> refreshFunc c' = refreshFunc c"
  using assms
proof (induction es arbitrary: c td)
  case Nil
  then show ?case by simp
next
  case (Cons x es)
  obtain k v where x: "x = (k, v)" by (cases x)
  obtain cont c1 td1 where v: "New_visit (obs k) k v (c, td) = (cont, c1, td1)"
    by (cases "New_visit (obs k) k v (c, td)")
  show ?case
    using Cons.IH [of c1 td1] Cons.prems New_visit_fields [OF v]
    by (cases cont) (simp_all add: x v)
qed

lemma alist_rebuild:
  assumes "distinct (map fst m)"
  shows "map (\<lambda>kv. (fst kv, the (map_of m (fst kv)))) m = m"
proof (rule map_idI)
  fix x assume x: "x \<in> set m"
  obtain k v where kv: "x = (k, v)" by (cases x)
  have "map_of m k = Some v"
    using assms x kv by simp
  then have "map_of m (fst x) = Some (snd x)"
    by (simp add: kv)
  then show "(fst x, the (map_of m (fst x))) = x"
    by simp
qed

lemma write_back_other:
  "a \<notin> snd ` set sl \<Longrightarrow> fold (write_back m) sl h ! a = h ! a"
proof (induction sl arbitrary: h)
  case Nil
  then show ?case by simp
next
  case (Cons x sl)
  obtain k a' where x: "x = (k, a')" by (cases x)
  have "write_back m x h ! a = h ! a"
    using Cons.prems x by (auto simp: write_back_def split: option.splits)
  then show ?case
    using Cons by simp
qed

lemma write_back_nth:
  assumes "distinct (map snd sl)" and "distinct (map fst sl)" and "(k, a) \<in> set sl"
    and "a < length h"
  shows "fold (write_back m) sl h ! a = (case map_of m k of Some v \<Rightarrow> v | None \<Rightarrow> h ! a)"
  using assms
proof (induction sl arbitrary: h)
  case Nil
  then show ?case by simp
next
  case (Cons x sl)
  obtain k' a' where x: "x = (k', a')" by (cases x)
  show ?case
  proof (cases "x = (k, a)")
    case True
    have "a \<notin> snd ` set sl" using Cons.prems(1) True by auto
    then have "fold (write_back m) sl (write_back m x h) ! a = write_back m x h ! a"
      by (rule write_back_other)
    moreover have "write_back m x h ! a = (case map_of m k of Some v \<Rightarrow> v | None \<Rightarrow> h ! a)"
      using True Cons.prems(4) by (simp add: write_back_def split: option.splits)
    ultimately show ?thesis
      by simp
  next
    case False
    then have mem: "(k, a) \<in> set sl" using Cons.prems(3) by simp
    then have "a \<in> snd ` set sl" by force
    then have ne: "a' \<noteq> a" using Cons.prems(1) x by auto
    have len: "a < length (write_back m x h)"
      using Cons.prems(4) x by (simp add: write_back_def split: option.splits)
    have same: "write_back m x h ! a = h ! a"
      using ne x by (simp add: write_back_def split: option.splits)
    have "fold (write_back m) sl (write_back m x h) ! a
            = (case map_of m k of Some v \<Rightarrow> v | None \<Rightarrow> write_back m x h ! a)"
      using Cons.IH [OF _ _ mem len] Cons.prems(1,2) by simp
    then show ?thesis
      using same by (simp split: option.splits)
  qed
qed

lemma Del_keys: "map fst (Del td m) = filter (\<lambda>k. k \<notin> set td) (map fst m)"
  by (induction m) (simp_all add: Del_def)

lemma view_Sweep_step:
  assumes "pool_wf p"
  shows "view (Sweep_step obs p) = New_sweep obs (view p)"
proof -
  let ?sl = "slots p"
  obtain c' td where f:
    "ForEach (\<lambda>key val. New_visit (obs key) key val) (cacheMap (view p)) (view p, []) = (c', td)"
    by (cases "ForEach (\<lambda>key val. New_visit (obs key) key val) (cacheMap (view p)) (view p, [])")
  let ?M = "Del td (cacheMap c')"
  have sweep: "New_sweep obs (view p) = c'\<lparr>cacheMap := ?M\<rparr>"
    by (simp add: New_sweep_def f)
  have d: "distinct (map fst ?sl)" "distinct (map snd ?sl)"
    "\<forall>a \<in> snd ` set ?sl. a < length (heap p)"
    using assms by (simp_all add: pool_wf_def)
  have vk: "map fst (cacheMap (view p)) = map fst ?sl"
    by (simp add: view_fields comp_def case_prod_beta)
  have keys': "map fst (cacheMap c') = map fst ?sl"
    using ForEach_keys [OF f] vk by simp
  have dM: "distinct (map fst ?M)"
    using d(1) keys' by (simp add: Del_keys)
  have live: "(map_of ?M k \<noteq> None) = (k \<notin> set td)" if "k \<in> set (map fst ?sl)" for k
  proof -
    have "k \<in> fst ` set (cacheMap c')"
      using that keys' by (metis set_map)
    then have "map_of (cacheMap c') k \<noteq> None"
      by (simp add: map_of_eq_None_iff)
    then show ?thesis
      by (simp add: map_of_Del)
  qed
  let ?F = "filter (\<lambda>ka. map_of ?M (fst ka) \<noteq> None) ?sl"
  let ?H = "fold (write_back ?M) ?sl (heap p)"
  have kF: "map fst ?F = map fst ?M"
  proof -
    have "map fst ?F = filter (\<lambda>k. map_of ?M k \<noteq> None) (map fst ?sl)"
      by (simp add: filter_map comp_def)
    also have "\<dots> = filter (\<lambda>k. k \<notin> set td) (map fst ?sl)"
      using live by (intro filter_cong) auto
    also have "\<dots> = map fst ?M"
      by (simp add: Del_keys keys')
    finally show ?thesis .
  qed
  have "map (\<lambda>(k, a). (k, ?H ! a)) ?F = map (\<lambda>ka. (fst ka, the (map_of ?M (fst ka)))) ?F"
  proof (rule map_cong [OF refl])
    fix x assume x: "x \<in> set ?F"
    obtain k a where ka: "x = (k, a)" by (cases x)
    have mem: "(k, a) \<in> set ?sl" and some: "map_of ?M k \<noteq> None"
      using x ka by simp_all
    have "a \<in> snd ` set ?sl" using mem by force
    then have "a < length (heap p)" using d(3) by auto
    then have "?H ! a = (case map_of ?M k of Some v \<Rightarrow> v | None \<Rightarrow> heap p ! a)"
      by (rule write_back_nth [OF d(2) d(1) mem])
    then show "(case x of (k, a) \<Rightarrow> (k, ?H ! a)) = (fst x, the (map_of ?M (fst x)))"
      using some ka by (auto split: option.splits)
  qed
  also have "\<dots> = map (\<lambda>kv. (fst kv, the (map_of ?M (fst kv)))) ?M"
  proof -
    have "map (\<lambda>ka. (fst ka, the (map_of ?M (fst ka)))) ?F
            = map (\<lambda>k. (k, the (map_of ?M k))) (map fst ?F)"
      by (simp add: comp_def)
    also have "\<dots> = map (\<lambda>k. (k, the (map_of ?M k))) (map fst ?M)"
      by (simp only: kF)
    also have "\<dots> = map (\<lambda>kv. (fst kv, the (map_of ?M (fst kv)))) ?M"
      by (simp add: comp_def)
    finally show ?thesis .
  qed
  also have "\<dots> = ?M"
    by (rule alist_rebuild [OF dM])
  finally have cm: "map (\<lambda>(k, a). (k, ?H ! a)) ?F = ?M" .
  have fields: "KeepTime c' = KeepTime (base p)" "RefreshTime c' = RefreshTime (base p)"
    "ctx c' = ctx (base p)" "refreshFunc c' = refreshFunc (base p)"
    using ForEach_settings [OF f] by (simp_all add: view_fields)
  have "Sweep_step obs p = p\<lparr>heap := ?H, slots := ?F, base := (base p)\<lparr>calls := calls c'\<rparr>\<rparr>"
    by (simp add: Sweep_step_def Let_def sweep)
  then have "view (Sweep_step obs p) = (base p)\<lparr>calls := calls c', cacheMap := ?M\<rparr>"
    using cm by (simp add: view_def)
  also have "\<dots> = c'\<lparr>cacheMap := ?M\<rparr>"
    using fields by (intro Cache.equality) simp_all
  finally show ?thesis
    by (simp add: sweep)
qed

subsection \<open>A slot deleted while its producer runs\<close>

lemma run_append: "run z (xs @ ys) p = run z ys (run z xs p)"
  by (simp add: run_def)

lemma pool_wf_racePool: "pool_wf racePool"
  by (simp add: pool_wf_def racePool_def)

lemma race_start:
  "run 0 raceStart racePool
     = \<lparr>heap = [newElement 0 100], slots = [(''one'', 0)],
        base = (New 1000000000 2000000000 stampProducer)\<lparr>calls := [(Background, ''one'')]\<rparr>,
        callers = [(''one'', Background, Producing 0 0), (''one'', Background, Start),
                   (''one'', Background, Loaded 0)]\<rparr>"
  by (simp add: run_def raceStart_def racePool_def pool_step_def Get_step_def GetOrCompute_def
      Sweep_step_def New_sweep_def New_visit_def view_def write_back_def Del_def newElement_def
      getAt_def visitAt_def New_def After_def Let_def)

lemma race_evict:
  "run 0 raceEvict racePool
     = \<lparr>heap = [newElement 0 100], slots = [],
        base = (New 1000000000 2000000000 stampProducer)\<lparr>calls := [(Background, ''one'')]\<rparr>,
        callers = [(''one'', Background, Producing 0 0), (''one'', Background, Start),
                   (''one'', Background, Loaded 0)]\<rparr>"
  by (simp add: raceEvict_def run_append race_start)
    (simp add: run_def pool_step_def Sweep_step_def New_sweep_def New_visit_def view_def
      write_back_def Del_def newElement_def visitAt_def New_def Let_def)

lemma race_second:
  "run 0 raceSecond racePool
     = \<lparr>heap = [newElement 0 100, newElement 0 2300000000], slots = [(''one'', 1)],
        base = (New 1000000000 2000000000 stampProducer)
                 \<lparr>calls := [(Background, ''one''), (Background, ''one'')]\<rparr>,
        callers = [(''one'', Background, Producing 0 0), (''one'', Background, Producing 1 1),
                   (''one'', Background, Loaded 0)]\<rparr>"
  by (simp add: raceSecond_def run_append race_evict)
    (simp add: run_def pool_step_def Get_step_def GetOrCompute_def getAt_def New_def Let_def)

lemma race_result:
  "run 0 raceSchedule racePool
     = \<lparr>heap = [\<lparr>data = 3, lastUsed = 2900000000, created = 100, ready = Some Closed\<rparr>,
                \<lparr>data = 1003, lastUsed = 2600000000, created = 2300000000, ready = Some Closed\<rparr>],
        slots = [(''one'', 1)],
        base = (New 1000000000 2000000000 stampProducer)
                 \<lparr>calls := [(Background, ''one''), (Background, ''one'')]\<rparr>,
        callers = [(''one'', Background, Finished 3 True), (''one'', Background, Finished 1003 True),
                   (''one'', Background, Finished 3 True)]\<rparr>"
  by (simp add: raceSchedule_def run_append race_second)
    (simp add: run_def pool_step_def Get_step_def Get_wait_def select2_def IsZero_def
      newElement_def getAt_def New_def stampProducer_def Let_def)

text \<open>
  C1, a schedule on which the calls are not coalesced. The cache keeps entries for
  two seconds and the producer takes longer. The first call inserts the slot of the
  key and invokes the producer; the third call finds the slot and waits on its
  channel. The walk at 1.5 s leaves the slot alone. The walk at 2.25 s finds the slot
  older than the keep time and deletes it while its producer is running: the walk
  does not look at the channel. The second call then finds the key absent, inserts a
  second slot and invokes the producer again: the key has received no value yet, three
  calls for it are in progress, and the producer has been invoked twice. The first
  and the third call return 3, the second returns 1003, and the map is left with 1003.
\<close>

theorem concurrent_Get_invoked_twice:
  "callers (run 0 raceStart racePool)
     = [(''one'', Background, Producing 0 0), (''one'', Background, Start),
        (''one'', Background, Loaded 0)]
   \<and> cacheMap (view (run 0 raceStart racePool)) = [(''one'', newElement 0 100)]
   \<and> cacheMap (view (run 0 raceEvict racePool)) = []
   \<and> callers (run 0 raceSecond racePool)
       = [(''one'', Background, Producing 0 0), (''one'', Background, Producing 1 1),
          (''one'', Background, Loaded 0)]
   \<and> callers (run 0 raceSchedule racePool)
       = [(''one'', Background, Finished 3 True), (''one'', Background, Finished 1003 True),
          (''one'', Background, Finished 3 True)]
   \<and> calls (base (run 0 raceSchedule racePool)) = [(Background, ''one''), (Background, ''one'')]
   \<and> cacheMap (view (run 0 raceSchedule racePool))
       = [(''one'', \<lparr>data = 1003, lastUsed = 2600000000, created = 2300000000,
                      ready = Some Closed\<rparr>)]"
  by (simp add: race_start race_evict race_second race_result view_def)

section \<open>The bulk cache\<close>

text \<open>
  The structs of the bulk cache have fields named as those of the per-key cache. From
  here on a plain field name is a field of the bulk cache, and the fields of the
  per-key cache are written with the name of their record in front.
\<close>

record 'v mapElement =
  data :: 'v
  created :: Time

text \<open>
  \<open>refreshFunc\<close> is the producer: the answer of an invocation is the list of the calls it
  makes to the setter, in order, and the boolean it returns; its first argument is the
  number of invocations made before. \<open>readyOnce\<close> is the state of the \<open>sync.OnceFunc\<close> that
  closes \<open>ready\<close>: whether it has run. Two fields are not in the program and are kept to
  count events: \<open>calls\<close> logs each invocation of the producer (the boolean it returned,
  and whether the lifecycle context was cancelled when it returned), \<open>closes\<close> counts
  the executions of \<open>close(c.ready)\<close>.
\<close>

record ('k, 'v) CacheMap =
  cacheMap :: "('k \<times> 'v mapElement) list"
  RefreshTime :: Duration
  KeepTime :: Duration
  lastRefresh :: Time
  refreshFunc :: "nat \<Rightarrow> context \<Rightarrow> ('k \<times> 'v) list \<times> bool"
  ctx :: "context"
  ready :: chan
  readyOnce :: bool
  calls :: "(bool \<times> bool) list"
  closes :: nat

definition NewMap :: "Duration \<Rightarrow> Duration \<Rightarrow> (nat \<Rightarrow> context \<Rightarrow> ('k \<times> 'v) list \<times> bool) \<Rightarrow> ('k, 'v) CacheMap" where
  "NewMap refreshTime keepTime f =
     \<lparr>cacheMap = [], RefreshTime = refreshTime, KeepTime = keepTime, lastRefresh = 0,
      refreshFunc = f, ctx = WithCancel Background, ready = Open, readyOnce = False,
      calls = [], closes = 0\<rparr>"

text \<open>The local function \<open>ready\<close> of \<open>NewMap\<close>: closes the channel the first time it is called.\<close>

definition ready_once :: "('k, 'v) CacheMap \<Rightarrow> ('k, 'v) CacheMap" where
  "ready_once c =
     (if readyOnce c then c
      else c\<lparr>readyOnce := True, ready := Closed, closes := closes c + 1\<rparr>)"

text \<open>
  What the maintenance goroutine observes in one round: the lifecycle context at the
  loop condition and after the first sleep, the readings of the clock at the visit
  of each key, at \<open>time.Since(c.lastRefresh)\<close>, before the producer is invoked and in
  each call of the setter, and the lifecycle context when the producer has returned.
  The producer run made before the loop uses the last three.
\<close>

record 'k roundObs =
  errAtLoop :: bool
  errAfterSleep :: bool
  sweptAt :: "'k \<Rightarrow> Time"
  refreshCheckedAt :: Time
  startAt :: Time
  setAt :: "nat \<Rightarrow> Time"
  errAfterRun :: bool

text \<open>The setter handed to the producer, and the setter calls of one invocation in order.\<close>

definition setter :: "'k \<Rightarrow> 'v \<Rightarrow> Time \<Rightarrow> ('k, 'v) CacheMap \<Rightarrow> ('k, 'v) CacheMap" where
  "setter key val now c =
     c\<lparr>cacheMap := AList.update key \<lparr>data = val, created = now\<rparr> (cacheMap c)\<rparr>"

fun apply_sets :: "(nat \<Rightarrow> Time) \<Rightarrow> nat \<Rightarrow> ('k \<times> 'v) list \<Rightarrow> ('k, 'v) CacheMap \<Rightarrow> ('k, 'v) CacheMap" where
  "apply_sets at j [] c = c"
| "apply_sets at j ((key, val) # ws) c = apply_sets at (Suc j) ws (setter key val (at j) c)"

text \<open>One producer run, as written twice in \<open>NewMap\<close>: before the loop and at the end of a round.\<close>

definition refresh :: "'k roundObs \<Rightarrow> ('k, 'v) CacheMap \<Rightarrow> ('k, 'v) CacheMap" where
  "refresh ob c =
     (case refreshFunc c (length (calls c)) (ctx c) of
        (writes, ok) \<Rightarrow>
          let c1 = apply_sets (setAt ob) 0 writes (c\<lparr>calls := calls c @ [(ok, errAfterRun ob)]\<rparr>)
          in if ok \<and> \<not> errAfterRun ob then ready_once (c1\<lparr>lastRefresh := startAt ob\<rparr>) else c1)"

text \<open>The callback of the sweep, whose state is the list \<open>toDelete\<close>, and the sweep.\<close>

definition NewMap_visit :: "('k, 'v) CacheMap \<Rightarrow> 'k roundObs \<Rightarrow> 'k \<Rightarrow> 'v mapElement \<Rightarrow> 'k list \<Rightarrow> bool \<times> 'k list" where
  "NewMap_visit c ob key val toDelete =
     (let sinceCreated = Since (sweptAt ob key) (created val)
      in if sinceCreated > KeepTime c then (True, toDelete @ [key]) else (True, toDelete))"

definition NewMap_sweep :: "'k roundObs \<Rightarrow> ('k, 'v) CacheMap \<Rightarrow> ('k, 'v) CacheMap" where
  "NewMap_sweep ob c =
     c\<lparr>cacheMap := Del (ForEach (NewMap_visit c ob) (cacheMap c) []) (cacheMap c)\<rparr>"

text \<open>
  The body of the loop. \<open>Stopped\<close> is the \<open>return\<close> after the first sleep; \<open>Running\<close> is
  reaching the loop condition again, through \<open>continue\<close> or through the end of the body.
\<close>

definition NewMap_round :: "'k roundObs \<Rightarrow> ('k, 'v) CacheMap \<Rightarrow> ('k, 'v) CacheMap \<times> status" where
  "NewMap_round ob c =
     (if errAfterSleep ob then (c, Stopped)
      else let c1 = NewMap_sweep ob c
           in if Since (refreshCheckedAt ob) (lastRefresh c1) < RefreshTime c1 then (c1, Running)
              else (refresh ob c1, Running))"

text \<open>
  The loop over a finite list of rounds. When the goroutine ends, by the loop
  condition or by the \<open>return\<close>, the deferred call of \<open>ready\<close> runs. When the list is
  exhausted the goroutine is still running.
\<close>

fun NewMap_loop :: "'k roundObs list \<Rightarrow> ('k, 'v) CacheMap \<Rightarrow> ('k, 'v) CacheMap \<times> status" where
  "NewMap_loop [] c = (c, Running)"
| "NewMap_loop (ob # obs) c =
     (if errAtLoop ob then (ready_once c, Stopped)
      else case NewMap_round ob c of
             (c', Stopped) \<Rightarrow> (ready_once c', Stopped)
           | (c', Running) \<Rightarrow> NewMap_loop obs c')"

definition NewMap_goroutine :: "'k roundObs \<Rightarrow> 'k roundObs list \<Rightarrow> ('k, 'v) CacheMap \<Rightarrow> ('k, 'v) CacheMap \<times> status" where
  "NewMap_goroutine first obs c = NewMap_loop obs (refresh first c)"

text \<open>\<open>Get\<close> of the bulk cache; \<open>z\<close> is the zero value of the value type.\<close>

definition CacheMap_Get :: "'v \<Rightarrow> ('k, 'v) CacheMap \<Rightarrow> bool \<Rightarrow> bool \<Rightarrow> 'k \<Rightarrow> 'v outcome" where
  "CacheMap_Get z c ctxIsDone pick key =
     (case select2 ctxIsDone (ready c = Closed) pick of
        None \<Rightarrow> Blocked
      | Some CtxDone \<Rightarrow> Returned z False
      | Some GateReady \<Rightarrow>
          (case map_of (cacheMap c) key of
             Some val \<Rightarrow> Returned (data val) True
           | None \<Rightarrow> Returned z False))"

text \<open>
  The gate, the state of the \<open>OnceFunc\<close>, the count of closes and the log agree: the
  channel is closed exactly when the \<open>OnceFunc\<close> has run, which is when one close has
  been executed, and exactly when some invocation of the producer returned true with
  the lifecycle context not cancelled. It holds of every state of a running goroutine.
\<close>

definition gate_consistent :: "('k, 'v) CacheMap \<Rightarrow> bool" where
  "gate_consistent c \<longleftrightarrow>
     readyOnce c = (ready c = Closed)
     \<and> closes c = (if readyOnce c then 1 else 0)
     \<and> (ready c = Closed) = (\<exists>x \<in> set (calls c). fst x \<and> \<not> snd x)"

subsection \<open>A bulk cache for the examples\<close>

text \<open>
  The cache of the repository's test (a refresh time of four seconds, a keep time of
  one hour, a producer that sets the keys 0 to 9), a producer that writes two keys on
  its first run and one of them on the later runs, and a producer that returns false
  on its first run and true, after one call of the setter, on the later runs.
\<close>

definition digits :: "(string \<times> int) list" where
  "digits = [(''0'', 0), (''1'', 1), (''2'', 2), (''3'', 3), (''4'', 4), (''5'', 5), (''6'', 6),
             (''7'', 7), (''8'', 8), (''9'', 9)]"

definition digitsProducer :: "nat \<Rightarrow> context \<Rightarrow> (string \<times> int) list \<times> bool" where
  "digitsProducer n cx = (digits, True)"

definition testMap :: "(string, int) CacheMap" where
  "testMap = NewMap 4000000000 3600000000000 digitsProducer"

definition roundAt :: "Time \<Rightarrow> string roundObs" where
  "roundAt t = \<lparr>errAtLoop = False, errAfterSleep = False, sweptAt = (\<lambda>k. t), refreshCheckedAt = t,
                startAt = t, setAt = (\<lambda>j. t), errAfterRun = False\<rparr>"

definition subsetProducer :: "nat \<Rightarrow> context \<Rightarrow> (string \<times> int) list \<times> bool" where
  "subsetProducer n cx = (if n = 0 then [(''0'', 0), (''1'', 1)] else [(''1'', 11)], True)"

definition mergedMap :: "(string, int) CacheMap" where
  "mergedMap = refresh (roundAt 1000000000) (NewMap 4000000000 3600000000000 subsetProducer)"

definition zeroKeepMap :: "(string, int) CacheMap" where
  "zeroKeepMap = mergedMap\<lparr>KeepTime := 0\<rparr>"

definition flakyProducer :: "nat \<Rightarrow> context \<Rightarrow> (string \<times> int) list \<times> bool" where
  "flakyProducer n cx = (if n = 0 then ([], False) else ([(''0'', int n)], True))"

subsection \<open>Producer runs and sweeps\<close>

lemma setter_fields:
  "KeepTime (setter k v t c) = KeepTime c \<and> RefreshTime (setter k v t c) = RefreshTime c
   \<and> lastRefresh (setter k v t c) = lastRefresh c \<and> refreshFunc (setter k v t c) = refreshFunc c
   \<and> ctx (setter k v t c) = ctx c \<and> ready (setter k v t c) = ready c
   \<and> readyOnce (setter k v t c) = readyOnce c \<and> calls (setter k v t c) = calls c
   \<and> closes (setter k v t c) = closes c"
  by (simp add: setter_def)

lemma apply_sets_fields:
  "KeepTime (apply_sets at j ws c) = KeepTime c \<and> RefreshTime (apply_sets at j ws c) = RefreshTime c
   \<and> lastRefresh (apply_sets at j ws c) = lastRefresh c
   \<and> refreshFunc (apply_sets at j ws c) = refreshFunc c
   \<and> ctx (apply_sets at j ws c) = ctx c \<and> ready (apply_sets at j ws c) = ready c
   \<and> readyOnce (apply_sets at j ws c) = readyOnce c \<and> calls (apply_sets at j ws c) = calls c
   \<and> closes (apply_sets at j ws c) = closes c"
proof (induction ws arbitrary: j c)
  case Nil
  then show ?case by simp
next
  case (Cons w ws)
  obtain k v where w: "w = (k, v)" by (cases w)
  show ?case using Cons [of "Suc j" "setter k v (at j) c"] by (simp add: w setter_fields)
qed

lemma apply_sets_keys:
  "fst ` set (cacheMap (apply_sets at j ws c)) = fst ` set (cacheMap c) \<union> fst ` set ws"
proof (induction ws arbitrary: j c)
  case Nil
  then show ?case by simp
next
  case (Cons w ws)
  obtain k v where w: "w = (k, v)" by (cases w)
  show ?case
    using Cons [of "Suc j" "setter k v (at j) c"] by (auto simp: w setter_def dom_update)
qed

lemma apply_sets_other:
  "k \<notin> fst ` set ws \<Longrightarrow> map_of (cacheMap (apply_sets at j ws c)) k = map_of (cacheMap c) k"
proof (induction ws arbitrary: j c)
  case Nil
  then show ?case by simp
next
  case (Cons w ws)
  obtain k1 v where w: "w = (k1, v)" by (cases w)
  from Cons.prems have "k \<noteq> k1" and "k \<notin> fst ` set ws" by (auto simp: w)
  then show ?case
    using Cons.IH [of "Suc j" "setter k1 v (at j) c"] by (simp add: w setter_def update_conv')
qed

lemma apply_sets_data:
  "map_option data (map_of (cacheMap (apply_sets at j ws c)) k)
     = (case map_of (rev ws) k of
          Some v \<Rightarrow> Some v
        | None \<Rightarrow> map_option data (map_of (cacheMap c) k))"
proof (induction ws arbitrary: j c)
  case Nil
  then show ?case by simp
next
  case (Cons w ws)
  obtain k1 v where w: "w = (k1, v)" by (cases w)
  show ?case
    using Cons.IH [of "Suc j" "setter k1 v (at j) c"]
    by (auto simp: w setter_def update_conv' map_add_def split: option.splits)
qed

lemma NewMap_marks:
  "ForEach (NewMap_visit c ob) es td
     = td @ map fst (filter (\<lambda>x. Since (sweptAt ob (fst x)) (created (snd x)) > KeepTime c) es)"
proof (induction es arbitrary: td)
  case Nil
  then show ?case by simp
next
  case (Cons x es)
  obtain k v where x: "x = (k, v)" by (cases x)
  have "NewMap_visit c ob k v td
          = (True, if Since (sweptAt ob k) (created v) > KeepTime c then td @ [k] else td)"
    by (simp add: NewMap_visit_def)
  then show ?case by (simp add: x Cons)
qed

lemma NewMap_sweep_lookup:
  assumes "distinct (map fst (cacheMap c))" and "map_of (cacheMap c) k = Some e"
  shows "map_of (cacheMap (NewMap_sweep ob c)) k
           = (if Since (sweptAt ob k) (created e) > KeepTime c then None else Some e)"
proof -
  have mem: "(k, e) \<in> set (cacheMap c)"
    using assms(2) by (rule map_of_SomeD)
  have uniq: "e' = e" if "(k, e') \<in> set (cacheMap c)" for e'
    using that assms by simp
  let ?old = "\<lambda>x. Since (sweptAt ob (fst x)) (created (snd x)) > KeepTime c"
  have "k \<in> set (ForEach (NewMap_visit c ob) (cacheMap c) [])
          \<longleftrightarrow> Since (sweptAt ob k) (created e) > KeepTime c"
  proof
    assume "k \<in> set (ForEach (NewMap_visit c ob) (cacheMap c) [])"
    then have "k \<in> fst ` {x \<in> set (cacheMap c). ?old x}"
      by (simp add: NewMap_marks)
    then obtain x where x: "x \<in> set (cacheMap c)" "?old x" "fst x = k" by blast
    obtain e' where xe: "x = (k, e')" using x(3) by (cases x) simp
    have "e' = e" using uniq [of e'] x(1) xe by simp
    then show "Since (sweptAt ob k) (created e) > KeepTime c" using x(2) xe by simp
  next
    assume "Since (sweptAt ob k) (created e) > KeepTime c"
    then have "(k, e) \<in> {x \<in> set (cacheMap c). ?old x}" using mem by simp
    then have "fst (k, e) \<in> fst ` {x \<in> set (cacheMap c). ?old x}" by (rule imageI)
    then show "k \<in> set (ForEach (NewMap_visit c ob) (cacheMap c) [])"
      by (simp add: NewMap_marks)
  qed
  then show ?thesis
    using assms(2) by (simp add: NewMap_sweep_def map_of_Del)
qed

lemma NewMap_sweep_keys:
  "fst ` set (cacheMap (NewMap_sweep ob c)) \<subseteq> fst ` set (cacheMap c)"
  by (auto simp: NewMap_sweep_def Del_def)

lemma NewMap_sweep_fields:
  "KeepTime (NewMap_sweep ob c) = KeepTime c \<and> RefreshTime (NewMap_sweep ob c) = RefreshTime c
   \<and> lastRefresh (NewMap_sweep ob c) = lastRefresh c
   \<and> refreshFunc (NewMap_sweep ob c) = refreshFunc c
   \<and> ctx (NewMap_sweep ob c) = ctx c \<and> ready (NewMap_sweep ob c) = ready c
   \<and> readyOnce (NewMap_sweep ob c) = readyOnce c \<and> calls (NewMap_sweep ob c) = calls c
   \<and> closes (NewMap_sweep ob c) = closes c"
  by (simp add: NewMap_sweep_def)

lemma refresh_cacheMap:
  "cacheMap (refresh ob c)
     = cacheMap (apply_sets (setAt ob) 0 (fst (refreshFunc c (length (calls c)) (ctx c)))
         (c\<lparr>calls := calls c @ [(snd (refreshFunc c (length (calls c)) (ctx c)), errAfterRun ob)]\<rparr>))"
  by (simp add: refresh_def ready_once_def Let_def split: prod.splits)

lemma refresh_keys:
  "fst ` set (cacheMap (refresh ob c))
     = fst ` set (cacheMap c) \<union> fst ` set (fst (refreshFunc c (length (calls c)) (ctx c)))"
  by (simp add: refresh_cacheMap apply_sets_keys)

lemma refresh_other:
  "k \<notin> fst ` set (fst (refreshFunc c (length (calls c)) (ctx c)))
     \<Longrightarrow> map_of (cacheMap (refresh ob c)) k = map_of (cacheMap c) k"
  by (simp add: refresh_cacheMap apply_sets_other)

lemma mergedMap_eq:
  "mergedMap = \<lparr>cacheMap = [(''0'', \<lparr>data = 0, created = 1000000000\<rparr>),
                              (''1'', \<lparr>data = 1, created = 1000000000\<rparr>)],
                RefreshTime = 4000000000, KeepTime = 3600000000000, lastRefresh = 1000000000,
                refreshFunc = subsetProducer, ctx = WithCancel Background, ready = Closed,
                readyOnce = True, calls = [(True, False)], closes = 1\<rparr>"
  by (simp add: mergedMap_def refresh_def NewMap_def subsetProducer_def roundAt_def setter_def
      ready_once_def)

lemma testMap_refreshed:
  "refresh (roundAt 1000000000) testMap
     = testMap\<lparr>cacheMap := map (\<lambda>x. (fst x, \<lparr>data = snd x, created = 1000000000\<rparr>)) digits,
               lastRefresh := 1000000000, ready := Closed, readyOnce := True,
               calls := [(True, False)], closes := 1\<rparr>"
  by (simp add: testMap_def refresh_def NewMap_def digitsProducer_def digits_def roundAt_def
      setter_def ready_once_def)

subsection \<open>Get\<close>

text \<open>
  C4. \<open>Get\<close> of the bulk cache waits while the caller's context is not done and the
  gate of the cache is not resolved. When the context wins the \<open>select\<close> (it is done,
  and the gate is unresolved or the \<open>select\<close> takes the context's branch) the call
  returns the zero value and false. When the gate wins, the call is a plain lookup:
  the data of the entry and true when the key is present, the zero value and false
  when it is absent. After a producer run that returned true with the lifecycle
  context not cancelled, a caller with a live context gets the value the run wrote
  last for the key, and true.
\<close>

theorem CacheMap_Get_cases:
  "(\<not> ctxIsDone \<and> ready c = Open \<longrightarrow> CacheMap_Get z c ctxIsDone pick key = Blocked)
   \<and> (ctxIsDone \<and> (ready c = Open \<or> pick) \<longrightarrow> CacheMap_Get z c ctxIsDone pick key = Returned z False)
   \<and> (ready c = Closed \<and> (\<not> ctxIsDone \<or> \<not> pick) \<longrightarrow>
        CacheMap_Get z c ctxIsDone pick key =
          (case map_of (cacheMap c) key of
             Some val \<Rightarrow> Returned (data val) True
           | None \<Rightarrow> Returned z False))
   \<and> (readyOnce c = (ready c = Closed)
        \<and> refreshFunc c (length (calls c)) (ctx c) = (writes, True) \<and> \<not> errAfterRun ob
        \<and> map_of (rev writes) key = Some v \<longrightarrow>
        CacheMap_Get z (refresh ob c) False pick key = Returned v True)"
proof (intro conjI impI)
  show "CacheMap_Get z c ctxIsDone pick key = Blocked" if "\<not> ctxIsDone \<and> ready c = Open"
    using that by (simp add: CacheMap_Get_def select2_def)
  show "CacheMap_Get z c ctxIsDone pick key = Returned z False"
    if "ctxIsDone \<and> (ready c = Open \<or> pick)"
    using that by (auto simp: CacheMap_Get_def select2_def)
  show "CacheMap_Get z c ctxIsDone pick key =
          (case map_of (cacheMap c) key of
             Some val \<Rightarrow> Returned (data val) True
           | None \<Rightarrow> Returned z False)"
    if "ready c = Closed \<and> (\<not> ctxIsDone \<or> \<not> pick)"
    using that by (auto simp: CacheMap_Get_def select2_def)
  show "CacheMap_Get z (refresh ob c) False pick key = Returned v True"
    if a: "readyOnce c = (ready c = Closed)
        \<and> refreshFunc c (length (calls c)) (ctx c) = (writes, True) \<and> \<not> errAfterRun ob
        \<and> map_of (rev writes) key = Some v"
  proof -
    let ?c1 = "apply_sets (setAt ob) 0 writes (c\<lparr>calls := calls c @ [(True, errAfterRun ob)]\<rparr>)"
    have r: "refresh ob c = ready_once (?c1\<lparr>lastRefresh := startAt ob\<rparr>)"
      using a by (simp add: refresh_def)
    have f: "ready ?c1 = ready c" "readyOnce ?c1 = readyOnce c"
      using apply_sets_fields [of "setAt ob" 0 writes "c\<lparr>calls := calls c @ [(True, errAfterRun ob)]\<rparr>"]
      by simp_all
    have closed: "ready (refresh ob c) = Closed"
      using a f by (simp add: r ready_once_def)
    have "cacheMap (refresh ob c) = cacheMap ?c1"
      by (simp add: r ready_once_def)
    then have "map_option data (map_of (cacheMap (refresh ob c)) key) = Some v"
      using a apply_sets_data [of "setAt ob" 0 writes "c\<lparr>calls := calls c @ [(True, errAfterRun ob)]\<rparr>" key]
      by simp
    then obtain val where "map_of (cacheMap (refresh ob c)) key = Some val" "data val = v"
      by auto
    then show ?thesis
      using closed by (simp add: CacheMap_Get_def select2_def)
  qed
qed

text \<open>
  C4, instances: on the fresh test cache a call blocks, or returns false when its
  context is done; once populated, a present key is found and an absent one is not;
  after the first producer run of the test the key 5 gives 5.
\<close>

theorem CacheMap_Get_cases_witness:
  "ready testMap = Open
   \<and> CacheMap_Get 0 testMap False False ''1'' = Blocked
   \<and> CacheMap_Get 0 testMap True False ''1'' = Returned 0 False
   \<and> ready mergedMap = Closed
   \<and> CacheMap_Get 0 mergedMap False False ''1'' = Returned 1 True
   \<and> CacheMap_Get 0 mergedMap False False ''7'' = Returned 0 False
   \<and> readyOnce testMap = (ready testMap = Closed)
   \<and> refreshFunc testMap (length (calls testMap)) (ctx testMap) = (digits, True)
   \<and> \<not> errAfterRun (roundAt 1000000000)
   \<and> map_of (rev digits) ''5'' = Some 5
   \<and> CacheMap_Get 0 (refresh (roundAt 1000000000) testMap) False False ''5'' = Returned 5 True"
proof -
  have o: "ready testMap = Open" "readyOnce testMap = (ready testMap = Closed)"
    "refreshFunc testMap (length (calls testMap)) (ctx testMap) = (digits, True)"
    by (simp_all add: testMap_def NewMap_def digitsProducer_def)
  have m: "ready mergedMap = Closed"
    "map_of (cacheMap mergedMap) ''1'' = Some \<lparr>data = 1, created = 1000000000\<rparr>"
    "map_of (cacheMap mergedMap) ''7'' = None"
    by (simp_all add: mergedMap_eq)
  have r: "\<not> errAfterRun (roundAt 1000000000)" "map_of (rev digits) ''5'' = Some 5"
    by (simp_all add: roundAt_def digits_def)
  have 1: "CacheMap_Get 0 testMap False False ''1'' = Blocked"
    using CacheMap_Get_cases [of False testMap 0 False "''1''"] o by simp
  have 2: "CacheMap_Get 0 testMap True False ''1'' = Returned 0 False"
    using CacheMap_Get_cases [of True testMap 0 False "''1''"] o by simp
  have 3: "CacheMap_Get 0 mergedMap False False ''1'' = Returned 1 True"
    using CacheMap_Get_cases [of False mergedMap 0 False "''1''"] m by simp
  have 4: "CacheMap_Get 0 mergedMap False False ''7'' = Returned 0 False"
    using CacheMap_Get_cases [of False mergedMap 0 False "''7''"] m by simp
  have 5: "CacheMap_Get 0 (refresh (roundAt 1000000000) testMap) False False ''5'' = Returned 5 True"
    using CacheMap_Get_cases [of False testMap 0 False "''5''" digits "roundAt 1000000000" 5] o r
    by simp
  show ?thesis using o m r 1 2 3 4 5 by blast
qed

subsection \<open>Additive merge\<close>

text \<open>
  C5. A producer run leaves in the map exactly the keys that were there and the keys
  it wrote, and an entry whose key it did not write is unchanged. A round of the loop
  adds no key but those the producer wrote; an entry that is not older than the keep
  time when the sweep visits it is still present after the round, unchanged if the
  producer did not write its key; and a key that is gone after the round was older
  than the keep time at the sweep.
\<close>

theorem NewMap_additive_merge:
  assumes "distinct (map fst (cacheMap c))" and "map_of (cacheMap c) k = Some e"
    and "writes = fst (refreshFunc c (length (calls c)) (ctx c))"
  shows "fst ` set (cacheMap (refresh ob c)) = fst ` set (cacheMap c) \<union> fst ` set writes
    \<and> (k \<notin> fst ` set writes \<longrightarrow> map_of (cacheMap (refresh ob c)) k = Some e)
    \<and> fst ` set (cacheMap (fst (NewMap_round ob c))) \<subseteq> fst ` set (cacheMap c) \<union> fst ` set writes
    \<and> (Since (sweptAt ob k) (created e) \<le> KeepTime c \<longrightarrow>
         k \<in> fst ` set (cacheMap (fst (NewMap_round ob c)))
         \<and> (k \<notin> fst ` set writes \<longrightarrow> map_of (cacheMap (fst (NewMap_round ob c))) k = Some e))
    \<and> (k \<notin> fst ` set (cacheMap (fst (NewMap_round ob c))) \<longrightarrow>
         KeepTime c < Since (sweptAt ob k) (created e))"
proof -
  let ?s = "NewMap_sweep ob c"
  have w: "fst (refreshFunc ?s (length (calls ?s)) (ctx ?s)) = writes"
    by (simp add: NewMap_sweep_fields assms(3))
  have mem: "k \<in> fst ` set (cacheMap c)"
    using map_of_SomeD [OF assms(2)] by force
  have 1: "fst ` set (cacheMap (refresh ob c)) = fst ` set (cacheMap c) \<union> fst ` set writes"
    by (simp add: refresh_keys assms(3))
  have 2: "map_of (cacheMap (refresh ob c)) k = Some e" if "k \<notin> fst ` set writes"
    using that refresh_other [of k c ob] assms(2,3) by simp
  have 3: "fst ` set (cacheMap (fst (NewMap_round ob c))) \<subseteq> fst ` set (cacheMap c) \<union> fst ` set writes"
  proof -
    have "fst ` set (cacheMap (refresh ob ?s)) \<subseteq> fst ` set (cacheMap c) \<union> fst ` set writes"
      using NewMap_sweep_keys [of ob c] refresh_keys [of ob ?s] w by auto
    then show ?thesis
      using NewMap_sweep_keys [of ob c] by (auto simp: NewMap_round_def Let_def)
  qed
  have kept: "map_of (cacheMap ?s) k = Some e" if "Since (sweptAt ob k) (created e) \<le> KeepTime c"
    using that NewMap_sweep_lookup [OF assms(1,2), of ob] by simp
  have 4: "k \<in> fst ` set (cacheMap (fst (NewMap_round ob c)))
         \<and> (k \<notin> fst ` set writes \<longrightarrow> map_of (cacheMap (fst (NewMap_round ob c))) k = Some e)"
    if le: "Since (sweptAt ob k) (created e) \<le> KeepTime c"
  proof -
    have ks: "k \<in> fst ` set (cacheMap ?s)"
      using map_of_SomeD [OF kept [OF le]] by force
    have "k \<in> fst ` set (cacheMap (refresh ob ?s))"
      using ks refresh_keys [of ob ?s] by simp
    moreover have "map_of (cacheMap (refresh ob ?s)) k = Some e" if "k \<notin> fst ` set writes"
      using that refresh_other [of k ?s ob] w kept [OF le] by simp
    ultimately show ?thesis
      using mem assms(2) ks kept [OF le] by (simp add: NewMap_round_def Let_def)
  qed
  have 5: "KeepTime c < Since (sweptAt ob k) (created e)"
    if "k \<notin> fst ` set (cacheMap (fst (NewMap_round ob c)))"
    using that 4 by (cases "Since (sweptAt ob k) (created e) \<le> KeepTime c") simp_all
  show ?thesis using 1 2 3 4 5 by blast
qed

text \<open>
  C5, instances: the second run of a producer that writes only the key 1 leaves the
  key 0, written by the first run, as it was; with a keep time of zero the round at
  2 s removes it.
\<close>

lemma mergedMap_round:
  "cacheMap (fst (NewMap_round (roundAt 5000000000) mergedMap))
     = [(''0'', \<lparr>data = 0, created = 1000000000\<rparr>), (''1'', \<lparr>data = 11, created = 5000000000\<rparr>)]"
  by (simp add: mergedMap_eq NewMap_round_def NewMap_sweep_def NewMap_visit_def roundAt_def
      Del_def refresh_def subsetProducer_def setter_def ready_once_def)

lemma zeroKeepMap_round:
  "cacheMap (fst (NewMap_round (roundAt 2000000000) zeroKeepMap)) = []"
  by (simp add: zeroKeepMap_def mergedMap_eq NewMap_round_def NewMap_sweep_def NewMap_visit_def
      roundAt_def Del_def)

theorem NewMap_additive_merge_witness:
  "distinct (map fst (cacheMap mergedMap))
   \<and> map_of (cacheMap mergedMap) ''0'' = Some \<lparr>data = 0, created = 1000000000\<rparr>
   \<and> fst (refreshFunc mergedMap (length (calls mergedMap)) (ctx mergedMap)) = [(''1'', 11)]
   \<and> ''0'' \<notin> fst ` set [(''1'', 11::int)]
   \<and> fst ` set (cacheMap (refresh (roundAt 5000000000) mergedMap)) = {''0'', ''1''}
   \<and> map_of (cacheMap (refresh (roundAt 5000000000) mergedMap)) ''0''
       = Some \<lparr>data = 0, created = 1000000000\<rparr>
   \<and> Since (sweptAt (roundAt 5000000000) ''0'') 1000000000 \<le> KeepTime mergedMap
   \<and> map_of (cacheMap (fst (NewMap_round (roundAt 5000000000) mergedMap))) ''0''
       = Some \<lparr>data = 0, created = 1000000000\<rparr>
   \<and> map_of (cacheMap zeroKeepMap) ''0'' = Some \<lparr>data = 0, created = 1000000000\<rparr>
   \<and> ''0'' \<notin> fst ` set (cacheMap (fst (NewMap_round (roundAt 2000000000) zeroKeepMap)))
   \<and> KeepTime zeroKeepMap < Since (sweptAt (roundAt 2000000000) ''0'') 1000000000"
proof -
  let ?e = "\<lparr>data = 0::int, created = 1000000000\<rparr>"
  have d: "distinct (map fst (cacheMap mergedMap))" "map_of (cacheMap mergedMap) ''0'' = Some ?e"
    "fst (refreshFunc mergedMap (length (calls mergedMap)) (ctx mergedMap)) = [(''1'', 11)]"
    by (simp_all add: mergedMap_eq subsetProducer_def)
  have n: "''0'' \<notin> fst ` set [(''1'', 11::int)]" by simp
  have s: "Since (sweptAt (roundAt 5000000000) ''0'') 1000000000 \<le> KeepTime mergedMap"
    by (simp add: roundAt_def mergedMap_eq)
  have z: "distinct (map fst (cacheMap zeroKeepMap))" "map_of (cacheMap zeroKeepMap) ''0'' = Some ?e"
    "''0'' \<notin> fst ` set (cacheMap (fst (NewMap_round (roundAt 2000000000) zeroKeepMap)))"
    by (simp_all add: zeroKeepMap_round) (simp_all add: zeroKeepMap_def mergedMap_eq)
  have a: "fst ` set (cacheMap (refresh (roundAt 5000000000) mergedMap)) = {''0'', ''1''}
     \<and> map_of (cacheMap (refresh (roundAt 5000000000) mergedMap)) ''0'' = Some ?e
     \<and> map_of (cacheMap (fst (NewMap_round (roundAt 5000000000) mergedMap))) ''0'' = Some ?e"
    using NewMap_additive_merge [OF d(1,2) d(3) [symmetric], of "roundAt 5000000000"] n s
    by (auto simp: mergedMap_eq)
  have b: "KeepTime zeroKeepMap < Since (sweptAt (roundAt 2000000000) ''0'') 1000000000"
    using NewMap_additive_merge [OF z(1,2) refl, of "roundAt 2000000000"] z(3) by simp
  show ?thesis using d n s z a b by blast
qed

subsection \<open>The sweep has no guard on the keep time\<close>

text \<open>
  C10. The sweep of the bulk cache deletes every entry whose age, at the reading of
  the clock taken when it is visited, exceeds the keep time, whatever the sign of the
  keep time. With a keep time of zero it deletes every entry created before that
  reading of the clock, whereas the sweep of the per-key cache with a keep time of
  zero removes no key.
\<close>

theorem NewMap_sweep_no_guard:
  assumes "distinct (map fst (cacheMap c))" and "map_of (cacheMap c) k = Some e"
  shows "(Since (sweptAt ob k) (created e) > KeepTime c \<longrightarrow>
           map_of (cacheMap (NewMap_sweep ob c)) k = None)
    \<and> (KeepTime c = 0 \<and> created e < sweptAt ob k \<longrightarrow>
           map_of (cacheMap (NewMap_sweep ob c)) k = None)
    \<and> (Cache.KeepTime pc = 0 \<longrightarrow>
           map fst (Cache.cacheMap (New_sweep pobs pc)) = map fst (Cache.cacheMap pc))"
proof (intro conjI impI)
  show "map_of (cacheMap (NewMap_sweep ob c)) k = None"
    if "Since (sweptAt ob k) (created e) > KeepTime c"
    using that NewMap_sweep_lookup [OF assms, of ob] by simp
  show "map_of (cacheMap (NewMap_sweep ob c)) k = None"
    if "KeepTime c = 0 \<and> created e < sweptAt ob k"
  proof -
    have "Since (sweptAt ob k) (created e) > 0"
      using that by (simp add: Since_def Sub_def maxDuration_def minDuration_def)
    then show ?thesis
      using that NewMap_sweep_lookup [OF assms, of ob] by simp
  qed
  show "map fst (Cache.cacheMap (New_sweep pobs pc)) = map fst (Cache.cacheMap pc)"
    if z: "Cache.KeepTime pc = 0"
  proof -
    obtain c' td' where fe:
      "ForEach (\<lambda>key val. New_visit (pobs key) key val) (Cache.cacheMap pc) (pc, []) = (c', td')"
      by (cases "ForEach (\<lambda>key val. New_visit (pobs key) key val) (Cache.cacheMap pc) (pc, [])")
    have "td' = []" using ForEach_keepTime_off [OF fe] z by simp
    moreover have "map fst (Cache.cacheMap c') = map fst (Cache.cacheMap pc)"
      using ForEach_keys [OF fe] by simp
    ultimately show ?thesis
      by (simp add: New_sweep_def fe Del_def)
  qed
qed

text \<open>
  C10, an instance: with a keep time of zero the entry created at 1 s is deleted by
  the sweep at 2 s, and the sweep of the per-key cache keeps its entry.
\<close>

theorem NewMap_sweep_no_guard_witness:
  "distinct (map fst (cacheMap zeroKeepMap))
   \<and> map_of (cacheMap zeroKeepMap) ''0'' = Some \<lparr>data = 0, created = 1000000000\<rparr>
   \<and> KeepTime zeroKeepMap = 0
   \<and> KeepTime zeroKeepMap < Since (sweptAt (roundAt 2000000000) ''0'') 1000000000
   \<and> 1000000000 < sweptAt (roundAt 2000000000) ''0''
   \<and> map_of (cacheMap (NewMap_sweep (roundAt 2000000000) zeroKeepMap)) ''0'' = None
   \<and> Cache.KeepTime noKeepCache = 0
   \<and> map fst (Cache.cacheMap noKeepCache) = [''one'']
   \<and> map fst (Cache.cacheMap (New_sweep (\<lambda>k. visitAt 2600000000) noKeepCache)) = [''one'']"
proof -
  let ?e = "\<lparr>data = 0::int, created = 1000000000\<rparr>"
  have z: "distinct (map fst (cacheMap zeroKeepMap))" "map_of (cacheMap zeroKeepMap) ''0'' = Some ?e"
    "KeepTime zeroKeepMap = 0"
    "KeepTime zeroKeepMap < Since (sweptAt (roundAt 2000000000) ''0'') 1000000000"
    "1000000000 < sweptAt (roundAt 2000000000) ''0''"
    by (simp_all add: zeroKeepMap_def mergedMap_eq roundAt_def)
  have p: "Cache.KeepTime noKeepCache = 0" "map fst (Cache.cacheMap noKeepCache) = [''one'']"
    by (simp_all add: noKeepCache_def hotCache_def)
  note t = NewMap_sweep_no_guard [OF z(1,2), of "roundAt 2000000000" noKeepCache "\<lambda>k. visitAt 2600000000"]
  have a: "map_of (cacheMap (NewMap_sweep (roundAt 2000000000) zeroKeepMap)) ''0'' = None"
    using t z by simp
  have b: "map fst (Cache.cacheMap (New_sweep (\<lambda>k. visitAt 2600000000) noKeepCache)) = [''one'']"
    using t p by simp
  show ?thesis using z p a b by blast
qed

subsection \<open>The readiness gate\<close>

lemma gate_consistent_NewMap: "gate_consistent (NewMap refreshTime keepTime f)"
  by (simp add: gate_consistent_def NewMap_def)

lemma gate_consistent_refresh:
  assumes "gate_consistent c"
  shows "gate_consistent (refresh ob c)"
proof -
  obtain writes ok where p: "refreshFunc c (length (calls c)) (ctx c) = (writes, ok)"
    by (cases "refreshFunc c (length (calls c)) (ctx c)")
  let ?c1 = "apply_sets (setAt ob) 0 writes (c\<lparr>calls := calls c @ [(ok, errAfterRun ob)]\<rparr>)"
  have f: "ready ?c1 = ready c" "readyOnce ?c1 = readyOnce c" "closes ?c1 = closes c"
    "calls ?c1 = calls c @ [(ok, errAfterRun ob)]"
    using apply_sets_fields [of "setAt ob" 0 writes "c\<lparr>calls := calls c @ [(ok, errAfterRun ob)]\<rparr>"]
    by simp_all
  show ?thesis
  proof (cases "ok \<and> \<not> errAfterRun ob")
    case True
    then have "refresh ob c = ready_once (?c1\<lparr>lastRefresh := startAt ob\<rparr>)"
      by (simp add: refresh_def p)
    then show ?thesis
      using assms f True by (auto simp: gate_consistent_def ready_once_def)
  next
    case False
    then have "refresh ob c = ?c1"
      by (auto simp: refresh_def p)
    then show ?thesis
      using assms f False by (auto simp: gate_consistent_def)
  qed
qed

lemma gate_consistent_sweep:
  "gate_consistent c \<Longrightarrow> gate_consistent (NewMap_sweep ob c)"
  by (simp add: gate_consistent_def NewMap_sweep_def)

lemma gate_consistent_round:
  assumes "gate_consistent c"
  shows "gate_consistent (fst (NewMap_round ob c))"
  using assms gate_consistent_sweep [OF assms, of ob]
    gate_consistent_refresh [OF gate_consistent_sweep [OF assms], of ob ob]
  by (simp add: NewMap_round_def Let_def)

text \<open>
  The log of a producer run: one entry, the boolean the producer returned and whether
  the lifecycle context was cancelled when it returned.
\<close>

lemma refresh_calls:
  "calls (refresh ob c)
     = calls c @ [(snd (refreshFunc c (length (calls c)) (ctx c)), errAfterRun ob)]"
proof -
  obtain writes ok where p: "refreshFunc c (length (calls c)) (ctx c) = (writes, ok)"
    by (cases "refreshFunc c (length (calls c)) (ctx c)")
  have a: "calls (apply_sets (setAt ob) 0 writes d) = calls d" for d :: "('a, 'b) CacheMap"
    using apply_sets_fields [of "setAt ob" 0 writes d] by simp
  show ?thesis
    by (simp add: refresh_def p ready_once_def Let_def a)
qed

text \<open>
  The lifecycle context is cancelled by \<open>c.cancel\<close> only, which is called nowhere but in
  the function registered with \<open>runtime.AddCleanup\<close>; the package has no method that
  stops a cache. A goroutine that never finds the context cancelled keeps running,
  and its states keep the gate, the \<open>OnceFunc\<close>, the count of closes and the log in
  agreement.
\<close>

lemma NewMap_round_live:
  assumes "\<not> errAfterSleep ob" and "\<not> errAfterRun ob" and "\<forall>x \<in> set (calls c). \<not> snd x"
  shows "snd (NewMap_round ob c) = Running \<and> (\<forall>x \<in> set (calls (fst (NewMap_round ob c))). \<not> snd x)"
  using assms refresh_calls [of ob "NewMap_sweep ob c"]
  by (auto simp: NewMap_round_def Let_def NewMap_sweep_fields)

lemma NewMap_loop_live:
  assumes "gate_consistent c" and "\<forall>x \<in> set (calls c). \<not> snd x"
    and "\<forall>ob \<in> set obs. \<not> errAtLoop ob \<and> \<not> errAfterSleep ob \<and> \<not> errAfterRun ob"
    and "NewMap_loop obs c = (c', st)"
  shows "gate_consistent c' \<and> (\<forall>x \<in> set (calls c'). \<not> snd x) \<and> st = Running"
  using assms
proof (induction obs arbitrary: c)
  case Nil
  have "c' = c" "st = Running"
    using Nil.prems(4) by simp_all
  then show ?case
    using Nil.prems(1,2) by simp
next
  case (Cons ob obs)
  have live: "\<not> errAtLoop ob" "\<not> errAfterSleep ob" "\<not> errAfterRun ob"
    using Cons.prems(3) by simp_all
  have tl: "\<forall>ob \<in> set obs. \<not> errAtLoop ob \<and> \<not> errAfterSleep ob \<and> \<not> errAfterRun ob"
    using Cons.prems(3) by simp
  obtain c1 st1 where r: "NewMap_round ob c = (c1, st1)"
    by (cases "NewMap_round ob c")
  have g1: "gate_consistent c1"
    using gate_consistent_round [OF Cons.prems(1), of ob] by (simp add: r)
  have l1: "st1 = Running" "\<forall>x \<in> set (calls c1). \<not> snd x"
    using NewMap_round_live [OF live(2,3) Cons.prems(2)] by (simp_all add: r)
  have "NewMap_loop (ob # obs) c = NewMap_loop obs c1"
    by (simp add: live(1) r l1(1))
  then have rest: "NewMap_loop obs c1 = (c', st)"
    using Cons.prems(4) by simp
  show ?case
    by (rule Cons.IH [OF g1 l1(2) tl rest])
qed

text \<open>
  C9. Take the maintenance goroutine of a new bulk cache after the producer run made
  before the loop and any number of rounds, the lifecycle context found cancelled by
  none of its checks. The gate is closed exactly when some invocation of the producer
  has returned true, and then \<open>close\<close> has been executed once; before any invocation has
  returned true it has not been executed. Since this holds after every number of
  rounds, the close is made by the first invocation that returns true. Once the gate
  is closed a further call of the release changes nothing, and whatever the next
  invocation of the producer returns, \<open>close\<close> has afterwards been executed once if
  that invocation or an earlier one returned true, and not at all otherwise.
\<close>

theorem NewMap_gate_resolved_once:
  assumes "NewMap_goroutine first obs (NewMap refreshTime keepTime f) = (c', st)"
    and "\<not> errAfterRun first"
    and "\<forall>ob \<in> set obs. \<not> errAtLoop ob \<and> \<not> errAfterSleep ob \<and> \<not> errAfterRun ob"
  shows "closes c' = (if \<exists>x \<in> set (calls c'). fst x then 1 else 0)
       \<and> (ready c' = Closed) = (\<exists>x \<in> set (calls c'). fst x)
       \<and> (ready c' = Closed \<longrightarrow> ready_once c' = c')
       \<and> (\<forall>ob. \<not> errAfterRun ob \<longrightarrow>
            closes (refresh ob c')
              = (if (\<exists>x \<in> set (calls c'). fst x) \<or> snd (refreshFunc c' (length (calls c')) (ctx c'))
                 then 1 else 0))
       \<and> st = Running"
proof -
  let ?c = "refresh first (NewMap refreshTime keepTime f)"
  have g: "gate_consistent ?c"
    using gate_consistent_refresh [OF gate_consistent_NewMap] .
  have n: "\<forall>x \<in> set (calls ?c). \<not> snd x"
    using assms(2) by (simp add: refresh_calls) (simp add: NewMap_def)
  have l: "NewMap_loop obs ?c = (c', st)"
    using assms(1) by (simp add: NewMap_goroutine_def)
  have inv: "gate_consistent c'" "\<forall>x \<in> set (calls c'). \<not> snd x" "st = Running"
    using NewMap_loop_live [OF g n assms(3) l] by simp_all
  have log: "(\<exists>x \<in> set (calls c'). fst x \<and> \<not> snd x) = (\<exists>x \<in> set (calls c'). fst x)"
    using inv(2) by auto
  have 1: "(ready c' = Closed) = (\<exists>x \<in> set (calls c'). fst x)"
    using inv(1) log by (simp add: gate_consistent_def)
  have 2: "closes c' = (if \<exists>x \<in> set (calls c'). fst x then 1 else 0)"
    using inv(1) 1 by (simp add: gate_consistent_def)
  have 3: "ready_once c' = c'" if "ready c' = Closed"
    using inv(1) that by (simp add: gate_consistent_def ready_once_def)
  have 4: "closes (refresh ob c')
              = (if (\<exists>x \<in> set (calls c'). fst x) \<or> snd (refreshFunc c' (length (calls c')) (ctx c'))
                 then 1 else 0)"
    if live: "\<not> errAfterRun ob" for ob
  proof -
    let ?r = "refresh ob c'"
    have gr: "gate_consistent ?r"
      using gate_consistent_refresh [OF inv(1)] .
    have "(\<exists>x \<in> set (calls ?r). fst x \<and> \<not> snd x)
            = ((\<exists>x \<in> set (calls c'). fst x) \<or> snd (refreshFunc c' (length (calls c')) (ctx c')))"
      using live log by (auto simp: refresh_calls)
    then show ?thesis
      using gr by (simp add: gate_consistent_def)
  qed
  show ?thesis using 1 2 3 4 inv(3) by simp
qed

text \<open>
  C9, an instance: a producer that returns false on its first run and true on the two
  runs that follow. After the first run the gate is open and nothing has been closed;
  after the three runs the gate is closed and \<open>close\<close> has been executed once.
\<close>

lemma flaky_run:
  "NewMap_goroutine (roundAt 1000000000) [roundAt 6000000000, roundAt 11000000000]
      (NewMap 4000000000 3600000000000 flakyProducer)
     = ((NewMap 4000000000 3600000000000 flakyProducer)
          \<lparr>cacheMap := [(''0'', \<lparr>data = 2, created = 11000000000\<rparr>)],
            lastRefresh := 11000000000, ready := Closed, readyOnce := True,
            calls := [(False, False), (True, False), (True, False)], closes := 1\<rparr>,
        Running)"
  by (simp add: NewMap_goroutine_def refresh_def NewMap_def flakyProducer_def roundAt_def
      ready_once_def NewMap_round_def NewMap_sweep_def NewMap_visit_def Del_def setter_def)

theorem NewMap_gate_resolved_once_witness:
  "\<not> errAfterRun (roundAt 1000000000)
   \<and> \<not> errAtLoop (roundAt 6000000000) \<and> \<not> errAfterSleep (roundAt 6000000000)
   \<and> \<not> errAfterRun (roundAt 6000000000)
   \<and> \<not> errAtLoop (roundAt 11000000000) \<and> \<not> errAfterSleep (roundAt 11000000000)
   \<and> \<not> errAfterRun (roundAt 11000000000)
   \<and> calls (fst (NewMap_goroutine (roundAt 1000000000) [roundAt 6000000000, roundAt 11000000000]
        (NewMap 4000000000 3600000000000 flakyProducer)))
       = [(False, False), (True, False), (True, False)]
   \<and> closes (fst (NewMap_goroutine (roundAt 1000000000) [roundAt 6000000000, roundAt 11000000000]
        (NewMap 4000000000 3600000000000 flakyProducer))) = 1
   \<and> ready (fst (NewMap_goroutine (roundAt 1000000000) [roundAt 6000000000, roundAt 11000000000]
        (NewMap 4000000000 3600000000000 flakyProducer))) = Closed
   \<and> closes (fst (NewMap_goroutine (roundAt 1000000000) []
        (NewMap 4000000000 3600000000000 flakyProducer))) = 0
   \<and> ready (fst (NewMap_goroutine (roundAt 1000000000) []
        (NewMap 4000000000 3600000000000 flakyProducer))) = Open"
proof -
  let ?run = "NewMap_goroutine (roundAt 1000000000) [roundAt 6000000000, roundAt 11000000000]
        (NewMap 4000000000 3600000000000 flakyProducer)"
  let ?early = "NewMap_goroutine (roundAt 1000000000) []
        (NewMap 4000000000 3600000000000 flakyProducer)"
  have o: "\<not> errAfterRun (roundAt 1000000000)"
    "\<not> errAtLoop (roundAt 6000000000)" "\<not> errAfterSleep (roundAt 6000000000)"
    "\<not> errAfterRun (roundAt 6000000000)"
    "\<not> errAtLoop (roundAt 11000000000)" "\<not> errAfterSleep (roundAt 11000000000)"
    "\<not> errAfterRun (roundAt 11000000000)"
    by (simp_all add: roundAt_def)
  have all: "\<forall>ob \<in> set [roundAt 6000000000, roundAt 11000000000].
      \<not> errAtLoop ob \<and> \<not> errAfterSleep ob \<and> \<not> errAfterRun ob"
    using o by simp
  have none: "\<forall>ob \<in> set ([] :: string roundObs list).
      \<not> errAtLoop ob \<and> \<not> errAfterSleep ob \<and> \<not> errAfterRun ob"
    by simp
  have log: "calls (fst ?run) = [(False, False), (True, False), (True, False)]"
    by (simp add: flaky_run)
  have log0: "calls (fst ?early) = [(False, False)]"
    by (simp add: NewMap_goroutine_def refresh_calls)
      (simp add: NewMap_def flakyProducer_def roundAt_def)
  have a: "closes (fst ?run) = 1 \<and> ready (fst ?run) = Closed"
    using NewMap_gate_resolved_once
        [of "roundAt 1000000000" "[roundAt 6000000000, roundAt 11000000000]"
            4000000000 3600000000000 flakyProducer, OF surjective_pairing o(1) all] log
    by simp
  have b: "closes (fst ?early) = 0 \<and> ready (fst ?early) = Open"
    using NewMap_gate_resolved_once
        [of "roundAt 1000000000" "[]" 4000000000 3600000000000 flakyProducer,
         OF surjective_pairing o(1) none] log0
    by (cases "ready (fst ?early)") simp_all
  show ?thesis using o log a b by simp
qed

end
